theory Spec2Isabelle
  imports Main "HOL-Library.Word"
begin

unbundle bit_operations_syntax

section \<open>JavaScript numbers and typed arrays\<close>

text \<open>
  The source is JavaScript. A JavaScript number is a double, exact on the integers of
  magnitude up to \<open>2 ^ 53\<close>. The numbers the hashing code computes are integers in that
  range (the locals of a transform by \<open>md5_step_bound\<close> below, the bit counter while
  fewer than \<open>2 ^ 50\<close> bytes are fed), so numbers are modelled as \<open>int\<close>. The bitwise operators first convert their operands to
  32-bit integers (\<open>ToInt32\<close>, for \<open>>>>\<close> \<open>ToUint32\<close>) and return a 32-bit integer;
  \<open>+\<close> does not wrap. A \<open>Uint8Array\<close> is a list of \<open>8 word\<close>, a \<open>Uint32Array\<close> a list of
  \<open>32 word\<close>: reading an element gives its unsigned value, storing a number reduces it
  modulo \<open>2 ^ 8\<close> or \<open>2 ^ 32\<close>.
\<close>

type_synonym byte = "8 word"
type_synonym u32 = "32 word"

definition ToInt32 :: "int \<Rightarrow> int" where
  "ToInt32 x = signed_take_bit 31 x"

definition ToUint32 :: "int \<Rightarrow> int" where
  "ToUint32 x = take_bit 32 x"

text \<open>\<open>a & b\<close>, \<open>a | b\<close>, \<open>a ^ b\<close>, \<open>~a\<close>, \<open>a << s\<close>, \<open>a >> s\<close>, \<open>a >>> s\<close>.\<close>

definition js_and :: "int \<Rightarrow> int \<Rightarrow> int" where
  "js_and a b = ToInt32 a AND ToInt32 b"

definition js_or :: "int \<Rightarrow> int \<Rightarrow> int" where
  "js_or a b = ToInt32 a OR ToInt32 b"

definition js_xor :: "int \<Rightarrow> int \<Rightarrow> int" where
  "js_xor a b = ToInt32 a XOR ToInt32 b"

definition js_not :: "int \<Rightarrow> int" where
  "js_not a = NOT (ToInt32 a)"

definition js_shl :: "int \<Rightarrow> nat \<Rightarrow> int" where
  "js_shl a s = ToInt32 (push_bit (s mod 32) (ToInt32 a))"

definition js_sar :: "int \<Rightarrow> nat \<Rightarrow> int" where
  "js_sar a s = drop_bit (s mod 32) (ToInt32 a)"

definition js_shr :: "int \<Rightarrow> nat \<Rightarrow> int" where
  "js_shr a s = drop_bit (s mod 32) (ToUint32 a)"

text \<open>Reading \<open>block[i]\<close>: an index past the end reads \<open>undefined\<close>, which the bitwise
  operators take as 0.\<close>

definition byte_at :: "byte list \<Rightarrow> nat \<Rightarrow> int" where
  "byte_at block i = (if i < length block then uint (block ! i) else 0)"

text \<open>\<open>target.set(source, offset)\<close> on typed arrays copies \<open>source\<close> over
  \<open>target[offset ..]\<close>. It raises a RangeError when the source does not fit; the MD5 code
  only calls it where it fits (\<open>offset + length source \<le> 64\<close>; \<open>md5Update_absorb\<close> shows
  that the buffer keeps its 64 bytes), and the model keeps the target's length in every
  case.\<close>

definition typed_set :: "'a list \<Rightarrow> 'a list \<Rightarrow> nat \<Rightarrow> 'a list" where
  "typed_set target source offset =
     take (length target) (take offset target @ source @ drop (offset + length source) target)"

section \<open>MD5 (hash-calculator.js)\<close>

definition md5FF :: "int \<Rightarrow> int \<Rightarrow> int \<Rightarrow> int \<Rightarrow> int \<Rightarrow> nat \<Rightarrow> int \<Rightarrow> int" where
  "md5FF a b c d x s t =
     (let a = a + (js_or (js_and b c) (js_and (js_not b) d) + x + t)
      in js_or (js_shl a s) (js_shr a (32 - s)) + b)"

definition md5GG :: "int \<Rightarrow> int \<Rightarrow> int \<Rightarrow> int \<Rightarrow> int \<Rightarrow> nat \<Rightarrow> int \<Rightarrow> int" where
  "md5GG a b c d x s t =
     (let a = a + (js_or (js_and b d) (js_and c (js_not d)) + x + t)
      in js_or (js_shl a s) (js_shr a (32 - s)) + b)"

definition md5HH :: "int \<Rightarrow> int \<Rightarrow> int \<Rightarrow> int \<Rightarrow> int \<Rightarrow> nat \<Rightarrow> int \<Rightarrow> int" where
  "md5HH a b c d x s t =
     (let a = a + (js_xor (js_xor b c) d + x + t)
      in js_or (js_shl a s) (js_shr a (32 - s)) + b)"

definition md5II :: "int \<Rightarrow> int \<Rightarrow> int \<Rightarrow> int \<Rightarrow> int \<Rightarrow> nat \<Rightarrow> int \<Rightarrow> int" where
  "md5II a b c d x s t =
     (let a = a + (js_xor c (js_or b (js_not d)) + x + t)
      in js_or (js_shl a s) (js_shr a (32 - s)) + b)"

text \<open>The sixteen little-endian message words \<open>x[0..15]\<close> of a block, as stored in the
  \<open>Uint32Array\<close>.\<close>

definition md5_word :: "byte list \<Rightarrow> nat \<Rightarrow> u32" where
  "md5_word block i =
     word_of_int
       (js_or (js_or (js_or (js_and (byte_at block (i * 4)) 0xFF)
                            (js_shl (js_and (byte_at block (i * 4 + 1)) 0xFF) 8))
                     (js_shl (js_and (byte_at block (i * 4 + 2)) 0xFF) 16))
              (js_shl (js_and (byte_at block (i * 4 + 3)) 0xFF) 24))"

text \<open>The body of \<open>md5Transform\<close> is straight-line code over the four locals
  \<open>a, b, c, d\<close>: sixty-four assignments, each of one of the four shapes
  \<open>a = f(a, b, c, d, x[k], s, t)\<close>, \<open>d = f(d, a, b, c, x[k], s, t)\<close>,
  \<open>c = f(c, d, a, b, x[k], s, t)\<close>, \<open>b = f(b, c, d, a, x[k], s, t)\<close>. A statement maps
  the locals to the locals; a round is the list of its sixteen statements in source
  order.\<close>

type_synonym md5_vars = "int \<times> int \<times> int \<times> int"

type_synonym md5_fn = "int \<Rightarrow> int \<Rightarrow> int \<Rightarrow> int \<Rightarrow> int \<Rightarrow> nat \<Rightarrow> int \<Rightarrow> int"

fun assign_a :: "md5_fn \<Rightarrow> int \<Rightarrow> nat \<Rightarrow> int \<Rightarrow> md5_vars \<Rightarrow> md5_vars" where
  "assign_a f x s t (a, b, c, d) = (f a b c d x s t, b, c, d)"

fun assign_d :: "md5_fn \<Rightarrow> int \<Rightarrow> nat \<Rightarrow> int \<Rightarrow> md5_vars \<Rightarrow> md5_vars" where
  "assign_d f x s t (a, b, c, d) = (a, b, c, f d a b c x s t)"

fun assign_c :: "md5_fn \<Rightarrow> int \<Rightarrow> nat \<Rightarrow> int \<Rightarrow> md5_vars \<Rightarrow> md5_vars" where
  "assign_c f x s t (a, b, c, d) = (a, b, f c d a b x s t, d)"

fun assign_b :: "md5_fn \<Rightarrow> int \<Rightarrow> nat \<Rightarrow> int \<Rightarrow> md5_vars \<Rightarrow> md5_vars" where
  "assign_b f x s t (a, b, c, d) = (a, f b c d a x s t, c, d)"

definition run_statements :: "('v \<Rightarrow> 'v) list \<Rightarrow> 'v \<Rightarrow> 'v" where
  "run_statements stmts v = foldl (\<lambda>v stmt. stmt v) v stmts"

definition md5_round1 :: "int list \<Rightarrow> (md5_vars \<Rightarrow> md5_vars) list" where
  "md5_round1 x =
     [assign_a md5FF (x ! 0) 7 0xD76AA478,
      assign_d md5FF (x ! 1) 12 0xE8C7B756,
      assign_c md5FF (x ! 2) 17 0x242070DB,
      assign_b md5FF (x ! 3) 22 0xC1BDCEEE,
      assign_a md5FF (x ! 4) 7 0xF57C0FAF,
      assign_d md5FF (x ! 5) 12 0x4787C62A,
      assign_c md5FF (x ! 6) 17 0xA8304613,
      assign_b md5FF (x ! 7) 22 0xFD469501,
      assign_a md5FF (x ! 8) 7 0x698098D8,
      assign_d md5FF (x ! 9) 12 0x8B44F7AF,
      assign_c md5FF (x ! 10) 17 0xFFFF5BB1,
      assign_b md5FF (x ! 11) 22 0x895CD7BE,
      assign_a md5FF (x ! 12) 7 0x6B901122,
      assign_d md5FF (x ! 13) 12 0xFD987193,
      assign_c md5FF (x ! 14) 17 0xA679438E,
      assign_b md5FF (x ! 15) 22 0x49B40821]"

definition md5_round2 :: "int list \<Rightarrow> (md5_vars \<Rightarrow> md5_vars) list" where
  "md5_round2 x =
     [assign_a md5GG (x ! 1) 5 0xF61E2562,
      assign_d md5GG (x ! 6) 9 0xC040B340,
      assign_c md5GG (x ! 11) 14 0x265E5A51,
      assign_b md5GG (x ! 0) 20 0xE9B6C7AA,
      assign_a md5GG (x ! 5) 5 0xD62F105D,
      assign_d md5GG (x ! 10) 9 0x02441453,
      assign_c md5GG (x ! 15) 14 0xD8A1E681,
      assign_b md5GG (x ! 4) 20 0xE7D3FBC8,
      assign_a md5GG (x ! 9) 5 0x21E1CDE6,
      assign_d md5GG (x ! 14) 9 0xC33707D6,
      assign_c md5GG (x ! 3) 14 0xF4D50D87,
      assign_b md5GG (x ! 8) 20 0x455A14ED,
      assign_a md5GG (x ! 13) 5 0xA9E3E905,
      assign_d md5GG (x ! 2) 9 0xFCEFA3F8,
      assign_c md5GG (x ! 7) 14 0x676F02D9,
      assign_b md5GG (x ! 12) 20 0x8D2A4C8A]"

definition md5_round3 :: "int list \<Rightarrow> (md5_vars \<Rightarrow> md5_vars) list" where
  "md5_round3 x =
     [assign_a md5HH (x ! 5) 4 0xFFFA3942,
      assign_d md5HH (x ! 8) 11 0x8771F681,
      assign_c md5HH (x ! 11) 16 0x6D9D6122,
      assign_b md5HH (x ! 14) 23 0xFDE5380C,
      assign_a md5HH (x ! 1) 4 0xA4BEEA44,
      assign_d md5HH (x ! 4) 11 0x4BDECFA9,
      assign_c md5HH (x ! 7) 16 0xF6BB4B60,
      assign_b md5HH (x ! 10) 23 0xBEBFBC70,
      assign_a md5HH (x ! 13) 4 0x289B7EC6,
      assign_d md5HH (x ! 0) 11 0xEAA127FA,
      assign_c md5HH (x ! 3) 16 0xD4EF3085,
      assign_b md5HH (x ! 6) 23 0x04881D05,
      assign_a md5HH (x ! 9) 4 0xD9D4D039,
      assign_d md5HH (x ! 12) 11 0xE6DB99E5,
      assign_c md5HH (x ! 15) 16 0x1FA27CF8,
      assign_b md5HH (x ! 2) 23 0xC4AC5665]"

definition md5_round4 :: "int list \<Rightarrow> (md5_vars \<Rightarrow> md5_vars) list" where
  "md5_round4 x =
     [assign_a md5II (x ! 0) 6 0xF4292244,
      assign_d md5II (x ! 7) 10 0x432AFF97,
      assign_c md5II (x ! 14) 15 0xAB9423A7,
      assign_b md5II (x ! 5) 21 0xFC93A039,
      assign_a md5II (x ! 12) 6 0x655B59C3,
      assign_d md5II (x ! 3) 10 0x8F0CCC92,
      assign_c md5II (x ! 10) 15 0xFFEFF47D,
      assign_b md5II (x ! 1) 21 0x85845DD1,
      assign_a md5II (x ! 8) 6 0x6FA87E4F,
      assign_d md5II (x ! 15) 10 0xFE2CE6E0,
      assign_c md5II (x ! 6) 15 0xA3014314,
      assign_b md5II (x ! 13) 21 0x4E0811A1,
      assign_a md5II (x ! 4) 6 0xF7537E82,
      assign_d md5II (x ! 11) 10 0xBD3AF235,
      assign_c md5II (x ! 2) 15 0x2AD7D2BB,
      assign_b md5II (x ! 9) 21 0xEB86D391]"

text \<open>\<open>state[0] += a; state[1] += b; state[2] += c; state[3] += d\<close>, stored into the
  \<open>Uint32Array\<close>.\<close>

fun md5_add_state :: "u32 list \<Rightarrow> md5_vars \<Rightarrow> u32 list" where
  "md5_add_state st (a, b, c, d) =
     [word_of_int (uint (st ! 0) + a), word_of_int (uint (st ! 1) + b),
      word_of_int (uint (st ! 2) + c), word_of_int (uint (st ! 3) + d)]"

definition md5_rounds :: "int list \<Rightarrow> md5_vars \<Rightarrow> md5_vars" where
  "md5_rounds x v =
     run_statements (md5_round1 x @ md5_round2 x @ md5_round3 x @ md5_round4 x) v"

text \<open>\<open>md5Transform(state, block)\<close> updates the four state words in place; the model
  returns the new \<open>Uint32Array\<close>. \<open>x\<close> is the \<open>Uint32Array(16)\<close> of little-endian
  message words, read back as numbers. The state array always has four elements: it is
  created by \<open>md5Init\<close> and only written by \<open>md5Transform\<close>.\<close>

definition md5Transform :: "u32 list \<Rightarrow> byte list \<Rightarrow> u32 list" where
  "md5Transform st block =
     md5_add_state st
       (md5_rounds (map (\<lambda>i. uint (md5_word block i)) [0 ..< 16])
          (uint (st ! 0), uint (st ! 1), uint (st ! 2), uint (st ! 3)))"

text \<open>The accumulator object \<open>{state, count, buffer}\<close>.\<close>

record md5_state =
  state :: "u32 list"
  count :: int
  buffer :: "byte list"

definition md5Init :: md5_state where
  "md5Init = \<lparr>state = [0x67452301, 0xEFCDAB89, 0x98BADCFE, 0x10325476],
              count = 0,
              buffer = replicate 64 0\<rparr>"

text \<open>The \<open>while (bitsProcessed + 64 <= data.length)\<close> loop of \<open>md5Update\<close>; it returns
  the state words and \<open>bitsProcessed\<close>.\<close>

function md5_blocks :: "u32 list \<Rightarrow> byte list \<Rightarrow> nat \<Rightarrow> u32 list \<times> nat" where
  "md5_blocks hash data bitsProcessed =
     (if bitsProcessed + 64 \<le> length data
      then md5_blocks (md5Transform hash (take 64 (drop bitsProcessed data))) data
             (bitsProcessed + 64)
      else (hash, bitsProcessed))"
  by pat_completeness auto
termination
  by (relation "measure (\<lambda>(hash, data, bitsProcessed). length data - bitsProcessed)") auto

declare md5_blocks.simps [simp del]

definition md5Update :: "md5_state \<Rightarrow> byte list \<Rightarrow> md5_state" where
  "md5Update st data =
     (let hash = state st; buf = buffer st;
          bufferIndex = nat (js_and (js_sar (count st) 3) 0x3F);
          count' = count st + js_shl (int (length data)) 3;
          (hash, buf, bitsProcessed) =
            (if bufferIndex > 0 then
               (let needed = min (length data) (64 - bufferIndex);
                    buf = typed_set buf (take needed data) bufferIndex
                in if bufferIndex + needed = 64
                   then (md5Transform hash buf, buf, needed)
                   else (hash, buf, needed))
             else (hash, buf, 0));
          (hash, bitsProcessed) = md5_blocks hash data bitsProcessed;
          buf = (if bitsProcessed < length data
                 then typed_set buf (drop bitsProcessed data) 0 else buf)
      in \<lparr>state = hash, count = count', buffer = buf\<rparr>)"

text \<open>The two zero-filling loops of \<open>md5Final\<close>:
  \<open>while (bufferIndex < n) buffer[bufferIndex++] = 0\<close>.\<close>

function zero_fill :: "byte list \<Rightarrow> nat \<Rightarrow> nat \<Rightarrow> byte list" where
  "zero_fill buf bufferIndex n =
     (if bufferIndex < n then zero_fill (buf[bufferIndex := 0]) (bufferIndex + 1) n else buf)"
  by pat_completeness auto
termination
  by (relation "measure (\<lambda>(buf, bufferIndex, n). n - bufferIndex)") auto

declare zero_fill.simps [simp del]

text \<open>\<open>DataView.setUint32(_, v, true)\<close>: the four little-endian bytes of \<open>v\<close> modulo
  \<open>2 ^ 32\<close>.\<close>

definition setUint32_le :: "int \<Rightarrow> byte list" where
  "setUint32_le v =
     (let w = ToUint32 v
      in [word_of_int w, word_of_int (drop_bit 8 w), word_of_int (drop_bit 16 w),
          word_of_int (drop_bit 24 w)])"

text \<open>\<open>count / 0x100000000\<close> is a division of doubles; the following \<open>&\<close> truncates the
  quotient towards zero (the divisor is positive).\<close>

definition trunc_quot :: "int \<Rightarrow> int \<Rightarrow> int" where
  "trunc_quot a b = (if 0 \<le> a then a div b else - ((- a) div b))"

definition lengthBytes :: "int \<Rightarrow> byte list" where
  "lengthBytes cnt =
     setUint32_le (js_and cnt 0xFFFFFFFF)
       @ setUint32_le (js_and (trunc_quot cnt 0x100000000) 0xFFFFFFFF)"

definition md5_result :: "u32 list \<Rightarrow> byte list" where
  "md5_result hash =
     concat (map (\<lambda>i. [word_of_int (js_and (uint (hash ! i)) 0xFF),
                        word_of_int (js_and (js_sar (uint (hash ! i)) 8) 0xFF),
                        word_of_int (js_and (js_sar (uint (hash ! i)) 16) 0xFF),
                        word_of_int (js_and (js_sar (uint (hash ! i)) 24) 0xFF)]) [0 ..< 4])"

text \<open>\<open>md5Final(state)\<close> returns the 16 digest bytes and leaves the accumulator with the
  padded buffer and the final state words; its \<open>count\<close> is untouched. The model returns
  both.\<close>

definition md5Final :: "md5_state \<Rightarrow> byte list \<times> md5_state" where
  "md5Final st =
     (let hash = state st; buf = buffer st;
          bufferIndex = nat (js_and (js_sar (count st) 3) 0x3F);
          buf = buf[bufferIndex := 0x80];
          bufferIndex = bufferIndex + 1;
          (hash, buf, bufferIndex) =
            (if bufferIndex > 56
             then (let buf = zero_fill buf bufferIndex 64 in (md5Transform hash buf, buf, 0))
             else (hash, buf, bufferIndex));
          buf = zero_fill buf bufferIndex 56;
          buf = typed_set buf (lengthBytes (count st)) 56;
          hash = md5Transform hash buf
      in (md5_result hash, \<lparr>state = hash, count = count st, buffer = buf\<rparr>))"

section \<open>Hex output\<close>

definition hex_digit :: "nat \<Rightarrow> char" where
  "hex_digit n = ''0123456789abcdef'' ! (n mod 16)"

text \<open>\<open>bytes[i].toString(16).padStart(2, '0')\<close> for a byte.\<close>

definition byte_hex :: "byte \<Rightarrow> string" where
  "byte_hex b =
     (let s = (if unat b < 16 then [hex_digit (unat b)]
               else [hex_digit (unat b div 16), hex_digit (unat b)])
      in replicate (2 - length s) CHR ''0'' @ s)"

text \<open>\<open>toUpperCase\<close> and \<open>toLowerCase\<close> on the ASCII letters; digests and the strings
  compared with them are ASCII, other characters are left as they are.\<close>

definition toUpperCase :: "string \<Rightarrow> string" where
  "toUpperCase s =
     map (\<lambda>c. if 97 \<le> (of_char c :: nat) \<and> (of_char c :: nat) \<le> 122
               then char_of ((of_char c :: nat) - 32) else c) s"

definition toLowerCase :: "string \<Rightarrow> string" where
  "toLowerCase s =
     map (\<lambda>c. if 65 \<le> (of_char c :: nat) \<and> (of_char c :: nat) \<le> 90
               then char_of ((of_char c :: nat) + 32) else c) s"

definition bufferToHex :: "byte list \<Rightarrow> string \<Rightarrow> string" where
  "bufferToHex bytes format =
     (let hex = concat (map byte_hex bytes)
      in if format = ''uppercase'' then toUpperCase hex else hex)"

section \<open>Platform, settings, files, errors\<close>

text \<open>Every \<open>Error\<close> the hashing code raises or rejects with. Non-ASCII text of the
  source is written as its UTF-8 bytes.\<close>

datatype error =
    UnsupportedAlgorithm string
  | FileReadFailed
  | UnknownHashObject
  | UnsupportedHmacAlgorithm string
  | PlatformError string
  | TypeError

definition msg_unsupported :: string where
  "msg_unsupported =
     [CHR 0xE4, CHR 0xB8, CHR 0x8D, CHR 0xE6, CHR 0x94, CHR 0xAF, CHR 0xE6, CHR 0x8C,
      CHR 0x81, CHR 0xE7, CHR 0x9A, CHR 0x84, CHR 0xE7, CHR 0xAE, CHR 0x97, CHR 0xE6,
      CHR 0xB3, CHR 0x95, CHR 0x3A, CHR 0x20]"

definition msg_read :: string where
  "msg_read =
     [CHR 0xE6, CHR 0x96, CHR 0x87, CHR 0xE4, CHR 0xBB, CHR 0xB6, CHR 0xE8, CHR 0xAF,
      CHR 0xBB, CHR 0xE5, CHR 0x8F, CHR 0x96, CHR 0xE5, CHR 0xA4, CHR 0xB1, CHR 0xE8,
      CHR 0xB4, CHR 0xA5]"

definition msg_unknown :: string where
  "msg_unknown =
     [CHR 0xE6, CHR 0x9C, CHR 0xAA, CHR 0xE7, CHR 0x9F, CHR 0xA5, CHR 0xE7, CHR 0x9A,
      CHR 0x84, CHR 0xE5, CHR 0x93, CHR 0x88, CHR 0xE5, CHR 0xB8, CHR 0x8C, CHR 0xE5,
      CHR 0xAF, CHR 0xB9, CHR 0xE8, CHR 0xB1, CHR 0xA1, CHR 0xE7, CHR 0xB1, CHR 0xBB,
      CHR 0xE5, CHR 0x9E, CHR 0x8B]"

definition msg_hmac :: string where
  "msg_hmac =
     [CHR 0xE4, CHR 0xB8, CHR 0x8D, CHR 0xE6, CHR 0x94, CHR 0xAF, CHR 0xE6, CHR 0x8C,
      CHR 0x81, CHR 0xE7, CHR 0x9A, CHR 0x84, CHR 0x48, CHR 0x4D, CHR 0x41, CHR 0x43,
      CHR 0xE7, CHR 0xAE, CHR 0x97, CHR 0xE6, CHR 0xB3, CHR 0x95, CHR 0x3A, CHR 0x20]"

text \<open>The prefix of the failure marker that \<open>calculateMultipleHashes\<close> stores in a
  result slot.\<close>

definition failure_prefix :: string where
  "failure_prefix =
     [CHR 0xE8, CHR 0xAE, CHR 0xA1, CHR 0xE7, CHR 0xAE, CHR 0x97, CHR 0xE5, CHR 0xA4,
      CHR 0xB1, CHR 0xE8, CHR 0xB4, CHR 0xA5, CHR 0x3A, CHR 0x20]"

text \<open>\<open>error.message\<close>.\<close>

fun message :: "error \<Rightarrow> string" where
  "message (UnsupportedAlgorithm algorithm) = msg_unsupported @ algorithm"
| "message FileReadFailed = msg_read"
| "message UnknownHashObject = msg_unknown"
| "message (UnsupportedHmacAlgorithm algorithm) = msg_hmac @ algorithm"
| "message (PlatformError msg) = msg"
| "message TypeError = ''TypeError''"

text \<open>The browser is not part of the repository: \<open>window.crypto.subtle\<close> is a parameter
  of the model. A call of the platform either rejects, with the message of its error,
  or returns bytes. \<open>crypto_supported\<close> is what \<open>isCryptoSupported()\<close> returns.\<close>

datatype crypto_key = CryptoKey string "byte list"

record platform =
  crypto_supported :: bool
  subtle_digest :: "string \<Rightarrow> byte list option \<Rightarrow> string + byte list"
  subtle_importKey :: "string \<Rightarrow> byte list \<Rightarrow> string + crypto_key"
  subtle_sign :: "crypto_key \<Rightarrow> byte list \<Rightarrow> string + byte list"

text \<open>\<open>SettingsManager.get('chunkSize')\<close> and \<open>SettingsManager.get('resultFormat')\<close>.\<close>

record settings =
  chunkSize :: nat
  resultFormat :: string

text \<open>A \<open>File\<close>: its name, its bytes, and for each offset whether a \<open>FileReader\<close> read
  of the slice starting there succeeds (\<open>onload\<close>) or fails (\<open>onerror\<close>).\<close>

record js_file =
  name :: string
  bytes :: "byte list"
  read_ok :: "nat \<Rightarrow> bool"

definition file_size :: "js_file \<Rightarrow> nat" where
  "file_size file = length (bytes file)"

text \<open>The \<open>options\<close> argument. The \<open>onProgress\<close> callback is modelled by the event log:
  a \<open>Progress\<close> event is one call of the callback.\<close>

record hash_options =
  opt_chunkSize :: "nat option"
  hmacKey :: "string option"

text \<open>What a computation does besides returning: reads of the file
  (\<open>Read offset length\<close>), chunks fed to the accumulator of the requested algorithm
  (\<open>Update algorithm length\<close>), and calls of the progress callback
  (\<open>Progress processed total\<close>; the \<open>percentage\<close> field is a rounded floating-point
  quotient of the two and is left out).\<close>

datatype event = Read nat nat | Update string nat | Progress nat nat

text \<open>The resolved value of \<open>calculateHash\<close>. Its \<open>duration\<close> field is wall-clock time
  and is left out.\<close>

record hash_result =
  algorithm :: string
  hash :: string

text \<open>A computation either never settles (\<open>None\<close>), or it settles, rejected
  (\<open>Inl\<close>) or resolved (\<open>Inr\<close>), after the events listed.\<close>

type_synonym 'a computation = "((error + 'a) \<times> event list) option"

section \<open>Hash objects (hash-calculator.js)\<close>

text \<open>The hash object \<open>{algorithm, type, buffer}\<close> of type \<open>'crypto'\<close> or
  \<open>{algorithm, type, state}\<close> of type \<open>'js'\<close>.\<close>

datatype hash_obj = Crypto string "byte list option" | Js string md5_state

definition isAlgorithmSupported :: "string \<Rightarrow> bool" where
  "isAlgorithmSupported alg =
     (alg \<in> set [''md5'', ''sha1'', ''sha256'', ''sha512'',
                          ''hmac-md5'', ''hmac-sha1'', ''hmac-sha256''])"

definition createJsHashInstance :: "string \<Rightarrow> error + hash_obj" where
  "createJsHashInstance alg =
     (if alg = ''md5'' then Inr (Js ''MD5'' md5Init)
      else Inl (UnsupportedAlgorithm alg))"

text \<open>The \<open>cryptoAlgoMap\<close> of \<open>createHashInstance\<close>.\<close>

definition hash_cryptoAlgoMap :: "string \<Rightarrow> string option" where
  "hash_cryptoAlgoMap alg =
     (if alg = ''sha1'' then Some ''SHA-1''
      else if alg = ''sha256'' then Some ''SHA-256''
      else if alg = ''sha512'' then Some ''SHA-512''
      else None)"

definition createHashInstance :: "platform \<Rightarrow> string \<Rightarrow> error + hash_obj" where
  "createHashInstance P alg =
     (if \<not> crypto_supported P then createJsHashInstance alg
      else (case hash_cryptoAlgoMap alg of
              Some cryptoAlgo \<Rightarrow> Inr (Crypto cryptoAlgo None)
            | None \<Rightarrow> createJsHashInstance alg))"

fun updateHash :: "hash_obj \<Rightarrow> byte list \<Rightarrow> hash_obj" where
  "updateHash (Crypto alg None) data = Crypto alg (Some data)"
| "updateHash (Crypto alg (Some buf)) data = Crypto alg (Some (buf @ data))"
| "updateHash (Js alg st) data =
     (if alg = ''MD5'' then Js alg (md5Update st data) else Js alg st)"

text \<open>\<open>finalizeHash\<close> returns the digest bytes or throws; the model also returns the
  hash object as the call leaves it (\<open>md5Final\<close> writes into the accumulator).\<close>

fun finalizeHash :: "platform \<Rightarrow> hash_obj \<Rightarrow> (error + byte list) \<times> hash_obj" where
  "finalizeHash P (Crypto alg buf) =
     (case subtle_digest P alg buf of
        Inl msg \<Rightarrow> (Inl (PlatformError msg), Crypto alg buf)
      | Inr hashBuffer \<Rightarrow> (Inr hashBuffer, Crypto alg buf))"
| "finalizeHash P (Js alg st) =
     (if alg = ''MD5''
      then (let (hashBytes, st') = md5Final st in (Inr hashBytes, Js alg st'))
      else (Inl UnknownHashObject, Js alg st))"

section \<open>Reading and hashing one file (hash-calculator.js)\<close>

text \<open>The chunk loop \<open>processChunk\<close> of \<open>calculateHash\<close>. When a chunk is empty while
  the offset is still below the file size (chunk size 0), the source calls
  \<open>processChunk\<close> again with nothing changed and the promise never settles: \<open>None\<close>.\<close>

function processChunk ::
  "platform \<Rightarrow> settings \<Rightarrow> js_file \<Rightarrow> string \<Rightarrow> nat \<Rightarrow> hash_obj \<Rightarrow> nat \<Rightarrow> nat
     \<Rightarrow> hash_result computation" where
  "processChunk P S file alg c hashBuffer offset processedBytes =
     (let chunk = take c (drop offset (bytes file))
      in if \<not> read_ok file offset
         then Some (Inl FileReadFailed, [Read offset (length chunk)])
         else
           (let hashBuffer' = updateHash hashBuffer chunk;
                processedBytes' = processedBytes + length chunk;
                offset' = offset + length chunk;
                evs = [Read offset (length chunk), Update alg (length chunk),
                       Progress processedBytes' (file_size file)]
            in if offset' < file_size file
               then (if chunk = [] then None
                     else map_option (\<lambda>(r, es). (r, evs @ es))
                            (processChunk P S file alg c hashBuffer' offset' processedBytes'))
               else (case fst (finalizeHash P hashBuffer') of
                       Inl e \<Rightarrow> Some (Inl e, evs)
                     | Inr h \<Rightarrow>
                         Some (Inr \<lparr>algorithm = alg,
                                    hash = bufferToHex h (resultFormat S)\<rparr>, evs))))"
  by pat_completeness auto
termination
  by (relation "measure (\<lambda>(P, S, file, alg, c, hashBuffer, offset, processedBytes).
                  file_size file - offset)") auto

declare processChunk.simps [simp del]

text \<open>The chunk loop \<open>readNextChunk\<close> of \<open>readFileAsArrayBuffer\<close>; \<open>chunks\<close> is the array
  of buffers read so far.\<close>

function readNextChunk ::
  "js_file \<Rightarrow> nat \<Rightarrow> byte list list \<Rightarrow> nat \<Rightarrow> (byte list) computation" where
  "readNextChunk file c chunks offset =
     (let chunk = take c (drop offset (bytes file))
      in if \<not> read_ok file offset
         then Some (Inl FileReadFailed, [Read offset (length chunk)])
         else
           (let chunks' = chunks @ [chunk];
                offset' = offset + length chunk;
                evs = [Read offset (length chunk), Progress offset' (file_size file)]
            in if offset' < file_size file
               then (if chunk = [] then None
                     else map_option (\<lambda>(r, es). (r, evs @ es))
                            (readNextChunk file c chunks' offset'))
               else Some (Inr (concat chunks'), evs)))"
  by pat_completeness auto
termination
  by (relation "measure (\<lambda>(file, c, chunks, offset). file_size file - offset)") auto

declare readNextChunk.simps [simp del]

definition readFileAsArrayBuffer :: "js_file \<Rightarrow> nat \<Rightarrow> (byte list) computation" where
  "readFileAsArrayBuffer file c =
     (if file_size file \<le> c
      then (if \<not> read_ok file 0 then Some (Inl FileReadFailed, [Read 0 (file_size file)])
            else Some (Inr (bytes file),
                       [Read 0 (file_size file), Progress (file_size file) (file_size file)]))
      else readNextChunk file c [] 0)"

text \<open>\<open>new TextEncoder().encode(s)\<close>: a \<open>string\<close> of the model already is the UTF-8
  byte sequence of the text.\<close>

definition TextEncoder_encode :: "string \<Rightarrow> byte list" where
  "TextEncoder_encode s = map (\<lambda>c. of_nat (of_char c)) s"

text \<open>The \<open>cryptoAlgoMap\<close> of \<open>calculateHMAC\<close>.\<close>

definition hmac_cryptoAlgoMap :: "string \<Rightarrow> string option" where
  "hmac_cryptoAlgoMap alg =
     (if alg = ''md5'' then Some ''MD5''
      else if alg = ''sha1'' then Some ''SHA-1''
      else if alg = ''sha256'' then Some ''SHA-256''
      else None)"

definition calculateHMAC ::
  "platform \<Rightarrow> settings \<Rightarrow> js_file \<Rightarrow> string \<Rightarrow> string option \<Rightarrow> nat
     \<Rightarrow> hash_result computation" where
  "calculateHMAC P S file alg key c =
     (let hmacKey = (case key of None \<Rightarrow> [] | Some k \<Rightarrow> k);
          keyBuffer = TextEncoder_encode hmacKey
      in case hmac_cryptoAlgoMap alg of
           None \<Rightarrow> Some (Inl (UnsupportedHmacAlgorithm alg), [])
         | Some cryptoAlgo \<Rightarrow>
             (case subtle_importKey P cryptoAlgo keyBuffer of
                Inl msg \<Rightarrow> Some (Inl (PlatformError msg), [])
              | Inr hmacKeyObj \<Rightarrow>
                  (case readFileAsArrayBuffer file c of
                     None \<Rightarrow> None
                   | Some (Inl e, evs) \<Rightarrow> Some (Inl e, evs)
                   | Some (Inr fileBuffer, evs) \<Rightarrow>
                       (case subtle_sign P hmacKeyObj fileBuffer of
                          Inl msg \<Rightarrow> Some (Inl (PlatformError msg), evs)
                        | Inr hmacBuffer \<Rightarrow>
                            Some (Inr \<lparr>algorithm = ''hmac-'' @ alg,
                                       hash = bufferToHex hmacBuffer (resultFormat S)\<rparr>,
                                  evs)))))"

definition calculateHash ::
  "platform \<Rightarrow> settings \<Rightarrow> js_file \<Rightarrow> string \<Rightarrow> hash_options \<Rightarrow> hash_result computation" where
  "calculateHash P S file alg options =
     (let c = (case opt_chunkSize options of None \<Rightarrow> chunkSize S | Some n \<Rightarrow> n)
      in if \<not> isAlgorithmSupported alg then Some (Inl (UnsupportedAlgorithm alg), [])
         else if take 5 alg = ''hmac-''
         then calculateHMAC P S file (drop 5 alg) (hmacKey options) c
         else
           (case createHashInstance P alg of
              Inl e \<Rightarrow> Some (Inl e, [])
            | Inr hashBuffer \<Rightarrow>
                if file_size file \<le> c
                then (if \<not> read_ok file 0
                      then Some (Inl FileReadFailed, [Read 0 (file_size file)])
                      else
                        (case fst (finalizeHash P (updateHash hashBuffer (bytes file))) of
                           Inl e \<Rightarrow>
                             Some (Inl e, [Read 0 (file_size file),
                                           Update alg (file_size file)])
                         | Inr h \<Rightarrow>
                             Some (Inr \<lparr>algorithm = alg,
                                        hash = bufferToHex h (resultFormat S)\<rparr>,
                                   [Read 0 (file_size file), Update alg (file_size file),
                                    Progress (file_size file) (file_size file)])))
                else processChunk P S file alg c hashBuffer 0 0))"

section \<open>JavaScript objects used as maps\<close>

text \<open>A plain object used as a map from strings: its own properties in the order they
  were created. \<open>obj[k] = v\<close> keeps the place of a key that exists and appends a new one;
  assigning a string to \<open>__proto__\<close> creates no property. \<open>Object.keys\<close> and
  \<open>Object.entries\<close> list the keys that are array indices first, in ascending numeric
  order, then the other keys in creation order.\<close>

type_synonym 'v js_object = "(string \<times> 'v) list"

fun obj_put :: "'v js_object \<Rightarrow> string \<Rightarrow> 'v \<Rightarrow> 'v js_object" where
  "obj_put [] k v = [(k, v)]"
| "obj_put ((k', v') # obj) k v =
     (if k' = k then (k, v) # obj else (k', v') # obj_put obj k v)"

definition obj_set :: "'v js_object \<Rightarrow> string \<Rightarrow> 'v \<Rightarrow> 'v js_object" where
  "obj_set obj k v = (if k = ''__proto__'' then obj else obj_put obj k v)"

definition obj_get :: "'v js_object \<Rightarrow> string \<Rightarrow> 'v option" where
  "obj_get obj k = map_of obj k"

definition is_digit :: "char \<Rightarrow> bool" where
  "is_digit ch = (48 \<le> (of_char ch :: nat) \<and> (of_char ch :: nat) \<le> 57)"

definition decimal :: "string \<Rightarrow> nat" where
  "decimal s = foldl (\<lambda>n ch. 10 * n + ((of_char ch :: nat) - 48)) 0 s"

text \<open>An array index is the canonical decimal numeral of an integer from 0 to
  \<open>2 ^ 32 - 2\<close>.\<close>

definition is_array_index :: "string \<Rightarrow> bool" where
  "is_array_index s =
     (s \<noteq> [] \<and> list_all is_digit s \<and> (s = ''0'' \<or> hd s \<noteq> CHR ''0'')
      \<and> decimal s < 4294967295)"

definition Object_entries :: "'v js_object \<Rightarrow> (string \<times> 'v) list" where
  "Object_entries obj =
     sort_key (\<lambda>(k, v). decimal k) (filter (\<lambda>(k, v). is_array_index k) obj)
       @ filter (\<lambda>(k, v). \<not> is_array_index k) obj"

definition Object_keys :: "'v js_object \<Rightarrow> string list" where
  "Object_keys obj = map fst (Object_entries obj)"

text \<open>The names every object inherits from \<open>Object.prototype\<close>: reading one of them from
  an object that has no such property of its own gives the inherited member, not
  \<open>undefined\<close>.\<close>

definition Object_prototype_names :: "string list" where
  "Object_prototype_names =
     [''constructor'', ''__defineGetter__'', ''__defineSetter__'', ''hasOwnProperty'',
      ''__lookupGetter__'', ''__lookupSetter__'', ''isPrototypeOf'',
      ''propertyIsEnumerable'', ''toString'', ''valueOf'', ''__proto__'',
      ''toLocaleString'']"

text \<open>A value used as a property key is converted to a string: \<open>undefined\<close> (a missing
  entry) becomes the key \<open>undefined\<close>.\<close>

definition property_key :: "string option \<Rightarrow> string" where
  "property_key v = (case v of None \<Rightarrow> ''undefined'' | Some s \<Rightarrow> s)"

text \<open>A \<open>Set\<close>, in insertion order.\<close>

definition set_add :: "'a list \<Rightarrow> 'a \<Rightarrow> 'a list" where
  "set_add s x = (if x \<in> set s then s else s @ [x])"

section \<open>Several algorithms over one file (hash-calculator.js)\<close>

text \<open>The report \<open>{filename, size, hashValues, duration}\<close>; \<open>size\<close> is the field
  \<open>size_bytes\<close>, \<open>duration\<close> is wall-clock time and is left out. The requested
  algorithm names are the keys of \<open>hashValues\<close>; they are taken not to be names of
  members of \<open>Object.prototype\<close>, so that \<open>hashValues[algorithm]\<close> reads an own
  property or \<open>undefined\<close>.\<close>

record file_report =
  filename :: string
  size_bytes :: nat
  hashValues :: "string js_object"

definition is_progress :: "event \<Rightarrow> bool" where
  "is_progress e = (case e of Progress p t \<Rightarrow> True | _ \<Rightarrow> False)"

text \<open>The \<open>for (const algorithm of algorithms)\<close> loop. The callback handed to
  \<open>calculateHash\<close> forwards a progress event only when \<open>algorithm === algorithms[0]\<close>;
  a rejection is caught and stored as the failure marker.\<close>

fun hashes_loop ::
  "platform \<Rightarrow> settings \<Rightarrow> js_file \<Rightarrow> string list \<Rightarrow> hash_options \<Rightarrow> string list
     \<Rightarrow> string js_object \<Rightarrow> (string js_object \<times> event list) option" where
  "hashes_loop P S file algorithms options [] results = Some (results, [])"
| "hashes_loop P S file algorithms options (alg # rest) results =
     (case calculateHash P S file alg options of
        None \<Rightarrow> None
      | Some (r, evs) \<Rightarrow>
          (let forwarded =
                 filter (\<lambda>e. is_progress e \<longrightarrow>
                               (case algorithms of [] \<Rightarrow> False | first # _ \<Rightarrow> alg = first)) evs;
               results' =
                 obj_set results alg
                   (case r of Inr result \<Rightarrow> hash result
                            | Inl e \<Rightarrow> failure_prefix @ message e)
           in map_option (\<lambda>(res, es). (res, forwarded @ es))
                (hashes_loop P S file algorithms options rest results')))"

definition calculateMultipleHashes ::
  "platform \<Rightarrow> settings \<Rightarrow> js_file \<Rightarrow> string list \<Rightarrow> hash_options
     \<Rightarrow> (file_report \<times> event list) option" where
  "calculateMultipleHashes P S file algorithms options =
     map_option
       (\<lambda>(results, evs).
          (\<lparr>filename = name file, size_bytes = file_size file, hashValues = results\<rparr>, evs))
       (hashes_loop P S file algorithms options algorithms [])"

section \<open>Comparing reports (file-handler.js, utils.js and the user-interface module)\<close>

text \<open>The set of all algorithms used by the reports, as \<open>compareMultipleFiles\<close> collects
  it.\<close>

definition all_algorithms :: "file_report list \<Rightarrow> string list" where
  "all_algorithms results =
     foldl (\<lambda>s result. foldl set_add s (Object_keys (hashValues result))) [] results"

text \<open>The loop that fills \<open>hashGroups\<close> for one algorithm:
  \<open>if (!hashGroups[hash]) hashGroups[hash] = []; hashGroups[hash].push(result.filename)\<close>.
  When the key names a member of \<open>Object.prototype\<close>, \<open>hashGroups[hash]\<close> is that member
  and \<open>push\<close> is not a function: a TypeError.\<close>

fun group_by_hash ::
  "string \<Rightarrow> file_report list \<Rightarrow> (string list) js_object
     \<Rightarrow> error + (string list) js_object" where
  "group_by_hash alg [] hashGroups = Inr hashGroups"
| "group_by_hash alg (result # rest) hashGroups =
     (let h = property_key (obj_get (hashValues result) alg)
      in if h \<in> set Object_prototype_names then Inl TypeError
         else group_by_hash alg rest
                (obj_set hashGroups h
                   ((case obj_get hashGroups h of None \<Rightarrow> [] | Some files \<Rightarrow> files)
                      @ [filename result])))"

text \<open>What is rendered for one algorithm: the all-identical notice, or one item per
  entry of \<open>hashGroups\<close> with its files.\<close>

datatype comparison = AllSame | Groups "(string \<times> string list) list"

definition compare_algorithm :: "file_report list \<Rightarrow> string \<Rightarrow> error + comparison" where
  "compare_algorithm results alg =
     (case group_by_hash alg results [] of
        Inl e \<Rightarrow> Inl e
      | Inr hashGroups \<Rightarrow>
          (let allSame = (length (Object_keys hashGroups) = 1)
           in Inr (if allSame then AllSame else Groups (Object_entries hashGroups))))"

fun compare_all ::
  "file_report list \<Rightarrow> string list \<Rightarrow> error + (string \<times> comparison) list" where
  "compare_all results [] = Inr []"
| "compare_all results (alg # algs) =
     (case compare_algorithm results alg of
        Inl e \<Rightarrow> Inl e
      | Inr cmp \<Rightarrow>
          (case compare_all results algs of
             Inl e \<Rightarrow> Inl e
           | Inr rest \<Rightarrow> Inr ((alg, cmp) # rest)))"

text \<open>\<open>compareMultipleFiles\<close> returns without rendering anything (\<open>None\<close>) when there
  are fewer than two reports.\<close>

definition compareMultipleFiles ::
  "file_report list \<Rightarrow> (error + (string \<times> comparison) list) option" where
  "compareMultipleFiles calculationResults =
     (if length calculationResults < 2 then None
      else Some (compare_all calculationResults (all_algorithms calculationResults)))"

text \<open>\<open>Utils.compareHashes\<close>: \<open>!hash\<close> holds for the empty string.\<close>

definition compareHashes :: "string \<Rightarrow> string \<Rightarrow> bool" where
  "compareHashes hash1 hash2 =
     (if hash1 = [] \<or> hash2 = [] then False
      else toLowerCase hash1 = toLowerCase hash2)"

text \<open>\<open>String.prototype.trim\<close>, on the ASCII white space.\<close>

definition is_space :: "char \<Rightarrow> bool" where
  "is_space ch = ((of_char ch :: nat) \<in> set [9, 10, 11, 12, 13, 32])"

definition trim :: "string \<Rightarrow> string" where
  "trim s = rev (dropWhile is_space (rev (dropWhile is_space s)))"

text \<open>The match loop of \<open>compareHash\<close>: every \<open>(filename, algorithm, hash)\<close> whose hash
  \<open>compareHashes\<close> accepts.\<close>

definition find_matches :: "string \<Rightarrow> file_report list \<Rightarrow> (string \<times> string \<times> string) list" where
  "find_matches inputHash results =
     concat (map (\<lambda>result.
        map (\<lambda>(alg, h). (filename result, alg, h))
          (filter (\<lambda>(alg, h). compareHashes inputHash h)
             (Object_entries (hashValues result)))) results)"

text \<open>\<open>compareHash\<close> of the user interface: the two warnings, the list of matches, or
  the no-match notice.\<close>

datatype match_outcome = EnterHashWarning | NoResultsWarning
  | MatchFound "(string \<times> string \<times> string) list" | NoMatch

definition compareHash :: "string \<Rightarrow> file_report list \<Rightarrow> match_outcome" where
  "compareHash input calculationResults =
     (let inputHash = trim input
      in if inputHash = [] then EnterHashWarning
         else if calculationResults = [] then NoResultsWarning
         else (let matches = find_matches inputHash calculationResults
               in if matches \<noteq> [] then MatchFound matches else NoMatch))"

section \<open>Functions used to state the properties\<close>

text \<open>The block-wise pass that the accumulator performs piecewise: transform every
  leading 64-byte block of a byte sequence and return the state words together with the
  bytes left over.\<close>

function md5_absorb :: "u32 list \<Rightarrow> byte list \<Rightarrow> u32 list \<times> byte list" where
  "md5_absorb h xs =
     (if 64 \<le> length xs then md5_absorb (md5Transform h (take 64 xs)) (drop 64 xs)
      else (h, xs))"
  by pat_completeness auto
termination
  by (relation "measure (\<lambda>(h, xs). length xs)") auto

declare md5_absorb.simps [simp del]

text \<open>The unconsumed bytes of an accumulator: the first \<open>(count >> 3) & 0x3F\<close> bytes of
  its buffer.\<close>

definition pending :: "md5_state \<Rightarrow> byte list" where
  "pending st = take (nat (js_and (js_sar (count st) 3) 0x3F)) (buffer st)"

text \<open>The padding \<open>md5Final\<close> appends after \<open>n\<close> unconsumed bytes: \<open>0x80\<close>, zeros up to
  56 modulo 64, and the eight length bytes.\<close>

definition md5_padding :: "nat \<Rightarrow> int \<Rightarrow> byte list" where
  "md5_padding n cnt =
     0x80 # replicate (if n < 56 then 55 - n else 119 - n) 0 @ lengthBytes cnt"

text \<open>The number that a sequence of \<open>md5Update\<close> calls adds to \<open>count\<close>.\<close>

definition bit_count :: "byte list list \<Rightarrow> int" where
  "bit_count chunks = sum_list (map (\<lambda>c. js_shl (int (length c)) 3) chunks)"

text \<open>\<open>md5Final\<close> in steps, for evaluation: the block after the \<open>0x80\<close> byte when no
  room is left for the length, the zero fill and the length bytes, the last transform,
  and the result. \<open>md5Final_code\<close> below proves that they compose to \<open>md5Final\<close>.\<close>

definition md5Final_out :: "int \<Rightarrow> byte list \<Rightarrow> u32 list \<Rightarrow> byte list \<times> md5_state" where
  "md5Final_out cnt buf h = (md5_result h, \<lparr>state = h, count = cnt, buffer = buf\<rparr>)"

definition md5Final_last :: "int \<Rightarrow> u32 list \<Rightarrow> byte list \<Rightarrow> byte list \<times> md5_state" where
  "md5Final_last cnt h buf = md5Final_out cnt buf (md5Transform h buf)"

fun md5Final_finish ::
  "int \<Rightarrow> u32 list \<times> byte list \<times> nat \<Rightarrow> byte list \<times> md5_state" where
  "md5Final_finish cnt (h, buf, bufferIndex) =
     md5Final_last cnt h (typed_set (zero_fill buf bufferIndex 56) (lengthBytes cnt) 56)"

definition md5Final_full :: "u32 list \<Rightarrow> byte list \<Rightarrow> u32 list \<times> byte list \<times> nat" where
  "md5Final_full h buf = (md5Transform h buf, buf, 0)"

definition md5Final_pad ::
  "u32 list \<Rightarrow> byte list \<Rightarrow> nat \<Rightarrow> u32 list \<times> byte list \<times> nat" where
  "md5Final_pad h buf bufferIndex =
     (if bufferIndex > 56 then md5Final_full h (zero_fill buf bufferIndex 64)
      else (h, buf, bufferIndex))"

text \<open>Two platforms. \<open>web_crypto digest sign\<close> has the algorithm table of the Web
  Cryptography API: digests and HMAC keys for the hash names SHA-1, SHA-256, SHA-384
  and SHA-512, computed by the functions given, and a NotSupportedError for every other
  name. \<open>broken_crypto\<close> rejects every call, the simulated failure of a delegated
  algorithm; the MD5 of the repository does not use the platform.\<close>

definition sha_names :: "string list" where
  "sha_names = [''SHA-1'', ''SHA-256'', ''SHA-384'', ''SHA-512'']"

definition web_crypto ::
  "(string \<Rightarrow> byte list \<Rightarrow> byte list) \<Rightarrow> (string \<Rightarrow> byte list \<Rightarrow> byte list \<Rightarrow> byte list)
     \<Rightarrow> platform" where
  "web_crypto digest sign =
     \<lparr>crypto_supported = True,
      subtle_digest = (\<lambda>alg buf.
         if alg \<in> set sha_names
         then (case buf of None \<Rightarrow> Inl ''TypeError'' | Some b \<Rightarrow> Inr (digest alg b))
         else Inl ''NotSupportedError''),
      subtle_importKey = (\<lambda>alg key.
         if alg \<in> set sha_names then Inr (CryptoKey alg key)
         else Inl ''NotSupportedError''),
      subtle_sign = (\<lambda>key data.
         case key of CryptoKey alg k \<Rightarrow> Inr (sign alg k data))\<rparr>"

definition broken_crypto :: platform where
  "broken_crypto =
     \<lparr>crypto_supported = True,
      subtle_digest = (\<lambda>alg buf. Inl ''OperationError''),
      subtle_importKey = (\<lambda>alg key. Inl ''OperationError''),
      subtle_sign = (\<lambda>key data. Inl ''OperationError'')\<rparr>"

text \<open>Inputs of the closed theorems: a file of three bytes that reads without error,
  a chunk size of two bytes, and no options.\<close>

definition three_bytes :: js_file where
  "three_bytes = \<lparr>name = ''three.bin'', bytes = [1, 2, 3], read_ok = (\<lambda>offset. True)\<rparr>"

definition two_byte_chunks :: settings where
  "two_byte_chunks = \<lparr>chunkSize = 2, resultFormat = ''lowercase''\<rparr>"

definition no_options :: hash_options where
  "no_options = \<lparr>opt_chunkSize = None, hmacKey = None\<rparr>"

text \<open>The events of a computation that settles; the processed-bytes values passed to
  the progress callback; the number of traversals of the file a log shows, a traversal
  starting with a read at offset 0.\<close>

definition events_of :: "'a computation \<Rightarrow> event list" where
  "events_of result = (case result of None \<Rightarrow> [] | Some (r, evs) \<Rightarrow> evs)"

definition progress_values :: "event list \<Rightarrow> nat list" where
  "progress_values evs = concat (map (\<lambda>e. case e of Progress p t \<Rightarrow> [p] | _ \<Rightarrow> []) evs)"

definition is_first_read :: "event \<Rightarrow> bool" where
  "is_first_read e = (case e of Read offset n \<Rightarrow> offset = 0 | _ \<Rightarrow> False)"

definition traversals :: "event list \<Rightarrow> nat" where
  "traversals evs = length (filter is_first_read evs)"

text \<open>Whether \<open>calculateHash\<close> gets as far as reading the file for an algorithm: the
  algorithm is supported and its hash instance is created or, for an HMAC algorithm,
  the platform imports the key.\<close>

definition reads_input :: "platform \<Rightarrow> hash_options \<Rightarrow> string \<Rightarrow> bool" where
  "reads_input P options alg =
     (isAlgorithmSupported alg \<and>
      (if take 5 alg = ''hmac-''
       then (case hmac_cryptoAlgoMap (drop 5 alg) of
               None \<Rightarrow> False
             | Some cryptoAlgo \<Rightarrow>
                 \<not> isl (subtle_importKey P cryptoAlgo
                          (TextEncoder_encode
                             (case hmacKey options of None \<Rightarrow> [] | Some k \<Rightarrow> k))))
       else \<not> isl (createHashInstance P alg)))"

text \<open>The value \<open>calculateMultipleHashes\<close> stores for an algorithm whose computation
  settled with \<open>r\<close>.\<close>

definition result_slot :: "error + hash_result \<Rightarrow> string" where
  "result_slot r = (case r of Inr result \<Rightarrow> hash result
                            | Inl e \<Rightarrow> failure_prefix @ message e)"

text \<open>A progress sequence from \<open>lo\<close> to \<open>hi\<close>: not empty, non-decreasing, above \<open>lo\<close>,
  ending in \<open>hi\<close> and below \<open>hi\<close> before its end.\<close>

definition progress_ok :: "nat \<Rightarrow> nat \<Rightarrow> nat list \<Rightarrow> bool" where
  "progress_ok lo hi ps =
     (ps \<noteq> [] \<and> sorted ps \<and> last ps = hi \<and> list_all (\<lambda>p. lo < p) ps
      \<and> list_all (\<lambda>p. p < hi) (butlast ps))"

text \<open>Grouping as a specification: the key of a report for an algorithm; a key that is
  neither an array index nor the name of a member of \<open>Object.prototype\<close> (no hex digest
  and no failure marker is either); the distinct elements of a list in first-seen order;
  and the groups by exact equality of keys, each with its files in report order.\<close>

definition digest_key :: "string \<Rightarrow> file_report \<Rightarrow> string" where
  "digest_key alg result = property_key (obj_get (hashValues result) alg)"

definition plain_key :: "string \<Rightarrow> bool" where
  "plain_key k = (k \<notin> set Object_prototype_names \<and> \<not> is_array_index k)"

definition first_seen :: "'a list \<Rightarrow> 'a list" where
  "first_seen xs = rev (remdups (rev xs))"

definition exact_groups :: "string \<Rightarrow> file_report list \<Rightarrow> (string \<times> string list) list" where
  "exact_groups alg results =
     map (\<lambda>k. (k, map filename (filter (\<lambda>r. digest_key alg r = k) results)))
       (first_seen (map (digest_key alg) results))"

text \<open>Reports used in the closed theorems: two files with the same content, a third
  file, and a report whose digest was formatted in upper case.\<close>

definition report_a :: file_report where
  "report_a = \<lparr>filename = ''a.bin'', size_bytes = 0,
                hashValues = [(''md5'', ''d41d8cd98f00b204e9800998ecf8427e'')]\<rparr>"

definition report_b :: file_report where
  "report_b = \<lparr>filename = ''b.bin'', size_bytes = 3,
                hashValues = [(''md5'', ''5289df737df57326fcdd22597afb1fac'')]\<rparr>"

definition report_c :: file_report where
  "report_c = \<lparr>filename = ''c.bin'', size_bytes = 0,
                hashValues = [(''md5'', ''d41d8cd98f00b204e9800998ecf8427e'')]\<rparr>"

definition report_upper :: file_report where
  "report_upper = \<lparr>filename = ''upper.bin'', size_bytes = 0,
                    hashValues = [(''md5'', ''D41D8CD98F00B204E9800998ECF8427E'')]\<rparr>"

text \<open>A progress sequence that rises from \<open>lo\<close> to at most \<open>hi\<close>: strictly increasing,
  above \<open>lo\<close> and not above \<open>hi\<close>. It need not reach \<open>hi\<close>.\<close>

definition progress_rising :: "nat \<Rightarrow> nat \<Rightarrow> nat list \<Rightarrow> bool" where
  "progress_rising lo hi ps = (sorted_wrt (<) ps \<and> list_all (\<lambda>p. lo < p \<and> p \<le> hi) ps)"

text \<open>An event that feeds no accumulator other than that of \<open>alg\<close>.\<close>

definition feeds_only :: "string \<Rightarrow> event \<Rightarrow> bool" where
  "feeds_only alg e = (case e of Update a n \<Rightarrow> a = alg | _ \<Rightarrow> True)"

text \<open>The MD5 digest of a message taken as a whole: the block-wise pass over the message
  followed by the padding for its length in bits.\<close>

definition md5_of_message :: "byte list \<Rightarrow> byte list" where
  "md5_of_message data =
     md5_result (fst (md5_absorb (state md5Init)
       (data @ md5_padding (length data mod 64) (8 * int (length data)))))"

text \<open>What a hash object has been fed. A delegated hash object holds the bytes
  themselves, and nothing before its first update. An MD5 hash object holds the state
  words and the unconsumed bytes of the block-wise pass over the bytes, and their number
  of bits in its counter.\<close>

fun accumulated :: "hash_obj \<Rightarrow> byte list \<Rightarrow> bool" where
  "accumulated (Crypto cryptoAlgo buf) data =
     (case buf of None \<Rightarrow> data = [] | Some b \<Rightarrow> b = data)"
| "accumulated (Js a st) data =
     (a = ''MD5'' \<and> length (buffer st) = 64
      \<and> state st = fst (md5_absorb (state md5Init) data)
      \<and> pending st = snd (md5_absorb (state md5Init) data)
      \<and> count st = 8 * int (length data))"

text \<open>The digest owed for the bytes \<open>data\<close> by a hash object of the kind of \<open>h\<close>: what the
  platform answers when asked for the digest of the whole of \<open>data\<close>, or the MD5 of
  \<open>data\<close>.\<close>

fun digest_of :: "platform \<Rightarrow> hash_obj \<Rightarrow> byte list \<Rightarrow> error + byte list" where
  "digest_of P (Crypto cryptoAlgo buf) data =
     (case subtle_digest P cryptoAlgo (Some data) of
        Inl msg \<Rightarrow> Inl (PlatformError msg)
      | Inr d \<Rightarrow> Inr d)"
| "digest_of P (Js a st) data = Inr (md5_of_message data)"

text \<open>The content owed to the result slot of an algorithm, from the file taken as a
  whole and from that algorithm alone: the failure marker with the message of the error
  of the algorithm (not supported, no hash instance, key refused, digest or signature
  rejected by the platform), and otherwise the formatted digest of all the bytes of the
  file, or the formatted signature of all of them for an HMAC algorithm.\<close>

definition slot_of_input ::
  "platform \<Rightarrow> settings \<Rightarrow> js_file \<Rightarrow> hash_options \<Rightarrow> string \<Rightarrow> string" where
  "slot_of_input P S fl options alg =
     (if \<not> isAlgorithmSupported alg then failure_prefix @ message (UnsupportedAlgorithm alg)
      else if take 5 alg = ''hmac-''
      then (case hmac_cryptoAlgoMap (drop 5 alg) of
              None \<Rightarrow> failure_prefix @ message (UnsupportedHmacAlgorithm (drop 5 alg))
            | Some cryptoAlgo \<Rightarrow>
                (case subtle_importKey P cryptoAlgo
                        (TextEncoder_encode (case hmacKey options of None \<Rightarrow> [] | Some k \<Rightarrow> k)) of
                   Inl msg \<Rightarrow> failure_prefix @ msg
                 | Inr k \<Rightarrow>
                     (case subtle_sign P k (bytes fl) of
                        Inl msg \<Rightarrow> failure_prefix @ msg
                      | Inr d \<Rightarrow> bufferToHex d (resultFormat S))))
      else (case createHashInstance P alg of
              Inl e \<Rightarrow> failure_prefix @ message e
            | Inr h \<Rightarrow>
                (case digest_of P h (bytes fl) of
                   Inl e \<Rightarrow> failure_prefix @ message e
                 | Inr d \<Rightarrow> bufferToHex d (resultFormat S))))"

text \<open>More inputs of the closed theorems. \<open>plain_crypto\<close> is a platform with the algorithm
  table of the Web Cryptography API whose digest of a buffer is the buffer itself and
  whose signature is the key followed by the data, so that a result shows which bytes
  reached the platform. \<open>key_options\<close> carries the HMAC key \<open>key\<close>. \<open>unreadable_tail\<close> is
  a file of three bytes whose reads fail from offset 2 on. \<open>three_byte_chunks\<close> reads a
  file of three bytes in one piece. \<open>zeros_512MiB\<close> is a file of \<open>2 ^ 29\<close> zero bytes and
  \<open>chunks_512MiB\<close> a chunk size that reads it in one piece.\<close>

definition plain_crypto :: platform where
  "plain_crypto = web_crypto (\<lambda>alg data. data) (\<lambda>alg key data. key @ data)"

definition key_options :: hash_options where
  "key_options = \<lparr>opt_chunkSize = None, hmacKey = Some ''key''\<rparr>"

definition unreadable_tail :: js_file where
  "unreadable_tail = \<lparr>name = ''cut.bin'', bytes = [1, 2, 3], read_ok = (\<lambda>offset. offset < 2)\<rparr>"

definition three_byte_chunks :: settings where
  "three_byte_chunks = \<lparr>chunkSize = 3, resultFormat = ''lowercase''\<rparr>"

definition chunks_512MiB :: settings where
  "chunks_512MiB = \<lparr>chunkSize = 536870912, resultFormat = ''lowercase''\<rparr>"

definition zeros_512MiB :: js_file where
  "zeros_512MiB = \<lparr>name = ''zeros.bin'', bytes = replicate 536870912 0,
                    read_ok = (\<lambda>offset. True)\<rparr>"

section \<open>Evaluation of md5Final\<close>

lemma md5Final_code [code]:
  "md5Final st =
     md5Final_finish (count st)
       (md5Final_pad (state st)
          ((buffer st)[nat (js_and (js_sar (count st) 3) 0x3F) := 0x80])
          (nat (js_and (js_sar (count st) 3) 0x3F) + 1))"
  by (simp add: md5Final_def Let_def md5Final_pad_def md5Final_full_def md5Final_last_def
      md5Final_out_def split: prod.splits)

section \<open>The MD5 accumulator as a block-wise pass\<close>

lemma js_index: "js_and (js_sar c 3) 0x3F = (c div 8) mod 64"
proof -
  have m: "(63::int) = mask 6" by (simp add: mask_eq_exp_minus_1)
  have "signed_take_bit 31 (63::int) = 63" by code_simp
  then have "js_and (js_sar c 3) 0x3F = take_bit 6 (signed_take_bit 31 (drop_bit 3 (signed_take_bit 31 c)))"
    unfolding js_and_def js_sar_def ToInt32_def by (simp add: m take_bit_eq_mask)
  also have "\<dots> = take_bit 6 (drop_bit 3 c)"
    by (rule bit_eqI) (auto simp add: bit_simps)
  also have "\<dots> = (c div 8) mod 64"
    by (simp add: take_bit_eq_mod drop_bit_eq_div)
  finally show ?thesis .
qed

lemma js_shl3: "js_shl (int n) 3 = signed_take_bit 31 (8 * int n)"
proof -
  have "js_shl (int n) 3 = signed_take_bit 31 (push_bit 3 (signed_take_bit 31 (int n)))"
    by (simp add: js_shl_def ToInt32_def)
  also have "\<dots> = signed_take_bit 31 (push_bit 3 (int n))"
    by (rule bit_eqI) (auto simp add: bit_simps)
  finally show ?thesis by (simp add: push_bit_eq_mult mult.commute)
qed

lemma index_lt: "nat (js_and (js_sar c 3) 0x3F) < 64"
  by (simp add: js_index)

lemma signed32_decomp: "\<exists>m. signed_take_bit 31 (x::int) = x - 4294967296 * m"
proof -
  have "signed_take_bit 31 x = take_bit 32 x - 2 ^ 32 * of_bool (bit x 31)"
    using signed_take_bit_eq_take_bit_minus [of 31 x] by simp
  also have "take_bit 32 x = x - 4294967296 * (x div 4294967296)"
    by (simp add: take_bit_eq_mod minus_mult_div_eq_mod)
  finally have "signed_take_bit 31 x = x - 4294967296 * (x div 4294967296 + of_bool (bit x 31))"
    by (simp add: algebra_simps)
  then show ?thesis by blast
qed

lemma index_step:
  "((c + signed_take_bit 31 (8 * int n)) div 8) mod 64 = (c div 8 + int n) mod 64"
proof -
  obtain m where m: "signed_take_bit 31 (8 * int n) = 8 * int n - 4294967296 * m"
    using signed32_decomp by blast
  have "c + (8 * int n - 4294967296 * m) = c + (int n - 536870912 * m) * 8"
    by simp
  then have "(c + (8 * int n - 4294967296 * m)) div 8 = c div 8 + (int n - 536870912 * m)"
    by simp
  also have "\<dots> = (c div 8 + int n) + 64 * (- 8388608 * m)"
    by simp
  finally have "(c + (8 * int n - 4294967296 * m)) div 8 mod 64
      = ((c div 8 + int n) + 64 * (- 8388608 * m)) mod 64"
    by simp
  also have "\<dots> = (c div 8 + int n) mod 64"
    by (rule mod_mult_self2)
  finally show ?thesis unfolding m .
qed

lemma index_update:
  "nat (js_and (js_sar (c + js_shl (int n) 3) 3) 0x3F)
     = (nat (js_and (js_sar c 3) 0x3F) + n) mod 64"
proof -
  have nn: "0 \<le> (c div 8) mod 64" by simp
  have "(c div 8 + int n) mod 64 = ((c div 8) mod 64 + int n) mod 64"
    by (simp add: mod_add_left_eq)
  also have "\<dots> = (int (nat ((c div 8) mod 64)) + int n) mod 64"
    using nn by simp
  also have "\<dots> = int ((nat ((c div 8) mod 64) + n) mod 64)"
    by (simp add: zmod_int)
  finally have "nat ((c div 8 + int n) mod 64) = (nat ((c div 8) mod 64) + n) mod 64"
    by simp
  then show ?thesis
    by (simp only: js_index js_shl3 index_step)
qed

lemma typed_set_fit:
  "offset + length source \<le> length target \<Longrightarrow>
   typed_set target source offset
     = take offset target @ source @ drop (offset + length source) target"
  by (simp add: typed_set_def)

lemma typed_set_length:
  "offset + length source \<le> length target \<Longrightarrow>
   length (typed_set target source offset) = length target"
  by (simp add: typed_set_fit)

lemma zero_fill_eq:
  "j \<le> n \<Longrightarrow> n \<le> length buf \<Longrightarrow>
   zero_fill buf j n = take j buf @ replicate (n - j) 0 @ drop n buf"
proof (induction buf j n rule: zero_fill.induct)
  case (1 buf j n)
  show ?case
  proof (cases "j < n")
    case True
    have step: "zero_fill buf j n = zero_fill (buf[j := 0]) (j + 1) n"
      using True by (subst zero_fill.simps) simp
    have ih: "zero_fill (buf[j := 0]) (j + 1) n
        = take (j + 1) (buf[j := 0]) @ replicate (n - (j + 1)) 0 @ drop n (buf[j := 0])"
      using "1.IH" [OF True] True "1.prems" by simp
    have t: "take (j + 1) (buf[j := 0]) = take j buf @ [0]"
      using True "1.prems" by (simp add: take_Suc_conv_app_nth)
    have d: "drop n (buf[j := 0]) = drop n buf"
      using True by simp
    have r: "replicate (n - j) (0::byte) = 0 # replicate (n - (j + 1)) 0"
      using True by (cases "n - j") auto
    show ?thesis
      by (simp only: step ih t d r) simp
  next
    case False
    then have "j = n" using "1.prems" by simp
    then show ?thesis
      by (subst zero_fill.simps) simp
  qed
qed

lemma absorb_short: "length xs < 64 \<Longrightarrow> md5_absorb h xs = (h, xs)"
  by (subst md5_absorb.simps) simp

lemma absorb_long:
  "64 \<le> length xs \<Longrightarrow>
   md5_absorb h xs = md5_absorb (md5Transform h (take 64 xs)) (drop 64 xs)"
  by (subst md5_absorb.simps) simp

lemma absorb_length: "length (snd (md5_absorb h xs)) = length xs mod 64"
proof (induction h xs rule: md5_absorb.induct)
  case (1 h xs)
  show ?case
  proof (cases "64 \<le> length xs")
    case True
    then show ?thesis
      using "1.IH" by (simp add: absorb_long le_mod_geq)
  next
    case False
    then show ?thesis by (simp add: absorb_short)
  qed
qed

lemma absorb_append:
  "md5_absorb h (xs @ ys)
     = md5_absorb (fst (md5_absorb h xs)) (snd (md5_absorb h xs) @ ys)"
proof (induction h xs rule: md5_absorb.induct)
  case (1 h xs)
  show ?case
  proof (cases "64 \<le> length xs")
    case True
    then have "md5_absorb h (xs @ ys)
        = md5_absorb (md5Transform h (take 64 xs)) (drop 64 xs @ ys)"
      by (simp add: absorb_long [of "xs @ ys"])
    then show ?thesis
      using "1.IH" [OF True] True by (simp add: absorb_long [of xs])
  next
    case False
    then show ?thesis by (simp add: absorb_short)
  qed
qed

lemma md5_blocks_absorb:
  "bp \<le> length data \<Longrightarrow>
   \<exists>bp'. md5_blocks h data bp = (fst (md5_absorb h (drop bp data)), bp')
        \<and> bp' \<le> length data
        \<and> drop bp' data = snd (md5_absorb h (drop bp data))"
proof (induction h data bp rule: md5_blocks.induct)
  case (1 h data bp)
  show ?case
  proof (cases "bp + 64 \<le> length data")
    case True
    have step: "md5_blocks h data bp
        = md5_blocks (md5Transform h (take 64 (drop bp data))) data (bp + 64)"
      using True by (subst md5_blocks.simps) simp
    have ab: "md5_absorb h (drop bp data)
        = md5_absorb (md5Transform h (take 64 (drop bp data))) (drop (bp + 64) data)"
      using True by (simp add: absorb_long add.commute)
    show ?thesis
      using "1.IH" [OF True] True by (simp only: step ab)
  next
    case False
    have "md5_blocks h data bp = (h, bp)"
      using False by (subst md5_blocks.simps) simp
    moreover have "md5_absorb h (drop bp data) = (h, drop bp data)"
      using False "1.prems" by (simp add: absorb_short)
    ultimately show ?thesis using "1.prems" by simp
  qed
qed


lemma pending_length:
  "length (buffer st) = 64 \<Longrightarrow>
   length (pending st) = nat (js_and (js_sar (count st) 3) 0x3F)"
  using index_lt [of "count st"] by (simp add: pending_def)

lemma store_rest:
  assumes "length buf = 64" and "bp' \<le> length data" and "length (drop bp' data) < 64"
  shows "take (length (drop bp' data))
           (if bp' < length data then typed_set buf (drop bp' data) 0 else buf)
         = drop bp' data"
proof (cases "bp' < length data")
  case True
  then show ?thesis using assms by (simp add: typed_set_fit)
next
  case False
  then show ?thesis using assms by simp
qed

lemma store_rest_length:
  assumes "length buf = 64" and "length (drop bp' data) < 64"
  shows "length (if bp' < length data then typed_set buf (drop bp' data) 0 else buf) = 64"
  using assms by (simp add: typed_set_length)

lemma md5Update_absorb:
  assumes len: "length (buffer st) = 64"
  shows "state (md5Update st data) = fst (md5_absorb (state st) (pending st @ data))
       \<and> pending (md5Update st data) = snd (md5_absorb (state st) (pending st @ data))
       \<and> length (buffer (md5Update st data)) = 64
       \<and> count (md5Update st data) = count st + js_shl (int (length data)) 3"
proof -
  define i where "i = nat (js_and (js_sar (count st) 3) 0x3F)"
  define p where "p = take i (buffer st)"
  define h where "h = state st"
  define buf where "buf = buffer st"
  have i64: "i < 64" unfolding i_def by (rule index_lt)
  have plen: "length p = i" using i64 len by (simp add: p_def)
  have pend: "pending st = p" by (simp add: pending_def p_def i_def)
  have blen: "length buf = 64" using len by (simp add: buf_def)
  have cnt: "count (md5Update st data) = count st + js_shl (int (length data)) 3"
    by (simp add: md5Update_def Let_def split: prod.splits)
  have idx': "nat (js_and (js_sar (count (md5Update st data)) 3) 0x3F)
      = (i + length data) mod 64"
    unfolding cnt i_def by (rule index_update)
  have rlen: "length (snd (md5_absorb h (p @ data))) = (i + length data) mod 64"
    by (simp add: absorb_length plen)
  have pend': "pending (md5Update st data)
      = take ((i + length data) mod 64) (buffer (md5Update st data))"
    by (simp add: pending_def idx')
  consider (a) "i = 0" | (b) "0 < i" "64 - i \<le> length data" | (c) "0 < i" "length data < 64 - i"
    by linarith
  then have "state (md5Update st data) = fst (md5_absorb h (p @ data))
       \<and> take ((i + length data) mod 64) (buffer (md5Update st data))
           = snd (md5_absorb h (p @ data))
       \<and> length (buffer (md5Update st data)) = 64"
  proof cases
    case a
    then have p0: "p = []" by (simp add: p_def)
    obtain bp' where bl: "md5_blocks h data 0 = (fst (md5_absorb h data), bp')"
      and b1: "bp' \<le> length data" and b2: "drop bp' data = snd (md5_absorb h data)"
      using md5_blocks_absorb [of 0 data h] by auto
    have r64: "length (drop bp' data) < 64"
      unfolding b2 by (simp add: absorb_length)
    have rl: "length (drop bp' data) = (i + length data) mod 64"
      unfolding b2 using rlen p0 by simp
    have upd: "md5Update st data
        = \<lparr>state = fst (md5_absorb h data), count = count st + js_shl (int (length data)) 3,
           buffer = (if bp' < length data then typed_set buf (drop bp' data) 0 else buf)\<rparr>"
      using a bl by (simp add: md5Update_def Let_def i_def [symmetric] h_def [symmetric]
          buf_def [symmetric])
    show ?thesis
      unfolding upd using store_rest [OF blen b1 r64] store_rest_length [OF blen r64]
      by (simp add: p0 b2 rl [symmetric])
  next
    case b
    define buf1 where "buf1 = typed_set buf (take (64 - i) data) i"
    have needed: "min (length data) (64 - i) = 64 - i" using b by simp
    have buf1: "buf1 = take 64 (p @ data)"
      using b i64 blen plen by (simp add: buf1_def typed_set_fit p_def buf_def)
    have b1len: "length buf1 = 64" using b plen i64 by (simp add: buf1)
    have long: "64 \<le> length (p @ data)" using b plen by simp
    have dr: "drop 64 (p @ data) = drop (64 - i) data" using plen i64 by simp
    have ab: "md5_absorb h (p @ data)
        = md5_absorb (md5Transform h buf1) (drop (64 - i) data)"
      using absorb_long [OF long, of h] by (simp only: buf1 dr)
    obtain bp' where bl: "md5_blocks (md5Transform h buf1) data (64 - i)
        = (fst (md5_absorb (md5Transform h buf1) (drop (64 - i) data)), bp')"
      and b1: "bp' \<le> length data"
      and b2: "drop bp' data = snd (md5_absorb (md5Transform h buf1) (drop (64 - i) data))"
      using md5_blocks_absorb [of "64 - i" data "md5Transform h buf1"] b by auto
    have r64: "length (drop bp' data) < 64"
      unfolding b2 by (simp add: absorb_length)
    have rl: "length (drop bp' data) = (i + length data) mod 64"
      unfolding b2 using rlen by (simp only: ab)
    have upd: "md5Update st data
        = \<lparr>state = fst (md5_absorb (md5Transform h buf1) (drop (64 - i) data)),
           count = count st + js_shl (int (length data)) 3,
           buffer = (if bp' < length data then typed_set buf1 (drop bp' data) 0 else buf1)\<rparr>"
      using b bl i64 by (simp add: md5Update_def Let_def i_def [symmetric] h_def [symmetric]
          buf_def [symmetric] needed buf1_def [symmetric])
    show ?thesis
      unfolding upd using store_rest [OF b1len b1 r64] store_rest_length [OF b1len r64]
      by (simp add: ab b2 rl [symmetric])
  next
    case c
    define buf1 where "buf1 = typed_set buf data i"
    have needed: "min (length data) (64 - i) = length data" using c by simp
    have buf1: "buf1 = p @ data @ drop (i + length data) buf"
      using c i64 blen by (simp add: buf1_def typed_set_fit p_def buf_def)
    have b1len: "length buf1 = 64" using c blen plen i64 by (simp add: buf1)
    have short: "length (p @ data) < 64" using c plen by simp
    have bl: "md5_blocks h data (length data) = (h, length data)"
      by (subst md5_blocks.simps) simp
    have upd: "md5Update st data
        = \<lparr>state = h, count = count st + js_shl (int (length data)) 3, buffer = buf1\<rparr>"
      using c bl i64 by (simp add: md5Update_def Let_def i_def [symmetric] h_def [symmetric]
          buf_def [symmetric] needed buf1_def [symmetric])
    have m: "(i + length data) mod 64 = i + length data" using c by simp
    show ?thesis
      unfolding upd using b1len plen by (simp add: absorb_short [OF short] m buf1)
  qed
  then show ?thesis
    by (simp add: pend pend' cnt h_def)
qed


lemma lengthBytes_length: "length (lengthBytes c) = 8"
  by (simp add: lengthBytes_def setUint32_le_def Let_def)

lemma md5Final_absorb:
  assumes len: "length (buffer st) = 64"
  shows "fst (md5Final st)
     = md5_result (fst (md5_absorb (state st)
         (pending st @ md5_padding (length (pending st)) (count st))))"
proof -
  define i where "i = nat (js_and (js_sar (count st) 3) 0x3F)"
  define p where "p = take i (buffer st)"
  define h where "h = state st"
  define buf where "buf = buffer st"
  define lb where "lb = lengthBytes (count st)"
  have i64: "i < 64" unfolding i_def by (rule index_lt)
  have plen: "length p = i" using i64 len by (simp add: p_def)
  have pend: "pending st = p" by (simp add: pending_def p_def i_def)
  have blen: "length buf = 64" using len by (simp add: buf_def)
  have lblen: "length lb = 8" by (simp add: lb_def lengthBytes_length)
  have t1: "take (Suc i) (buf[i := 0x80]) = p @ [0x80]"
    using i64 blen by (simp add: take_Suc_conv_app_nth p_def buf_def)
  show ?thesis
  proof (cases "i < 56")
    case True
    define a where "a = p @ 0x80 # replicate (55 - i) 0"
    have alen: "length a = 56" using True plen by (simp add: a_def)
    have z: "zero_fill (buf[i := 0x80]) (Suc i) 56 = a @ drop 56 buf"
      using True blen by (simp add: zero_fill_eq t1 a_def del: replicate_Suc)
    have "typed_set (a @ drop 56 buf) lb 56 = a @ lb"
      using blen alen lblen by (simp add: typed_set_fit)
    then have s: "typed_set (zero_fill (buf[i := 0x80]) (Suc i) 56) lb 56
        = p @ 0x80 # replicate (55 - i) 0 @ lb"
      by (simp add: z a_def)
    have l: "length (p @ 0x80 # replicate (55 - i) 0 @ lb) = 64"
      using True plen lblen by simp
    have ab: "md5_absorb h (p @ 0x80 # replicate (55 - i) 0 @ lb)
        = (md5Transform h (p @ 0x80 # replicate (55 - i) 0 @ lb), [])"
      using l by (simp add: absorb_long absorb_short)
    have "fst (md5Final st) = md5_result (md5Transform h (p @ 0x80 # replicate (55 - i) 0 @ lb))"
      using True s by (simp add: md5Final_def Let_def i_def [symmetric] h_def [symmetric]
          buf_def [symmetric] lb_def [symmetric] split: prod.splits)
    then show ?thesis
      using True by (simp add: pend plen md5_padding_def ab h_def [symmetric] lb_def [symmetric])
  next
    case False
    define b1 where "b1 = p @ 0x80 # replicate (63 - i) 0"
    have b1len: "length b1 = 64" using i64 plen by (simp add: b1_def)
    have z1: "zero_fill (buf[i := 0x80]) (Suc i) 64 = b1"
      using i64 blen by (simp add: zero_fill_eq t1 b1_def del: replicate_Suc)
    have z2: "zero_fill b1 0 56 = replicate 56 0 @ drop 56 b1"
      using b1len by (simp add: zero_fill_eq)
    have s: "typed_set (zero_fill b1 0 56) lb 56 = replicate 56 0 @ lb"
      using b1len lblen by (simp add: z2 typed_set_fit)
    have r: "replicate (119 - i) (0::byte) = replicate (63 - i) 0 @ replicate 56 0"
      using i64 by (simp add: replicate_add [symmetric])
    have whole: "p @ 0x80 # replicate (119 - i) 0 @ lb = b1 @ (replicate 56 0 @ lb)"
      by (simp add: b1_def r)
    have ab: "md5_absorb h (b1 @ (replicate 56 0 @ lb))
        = (md5Transform (md5Transform h b1) (replicate 56 0 @ lb), [])"
      using b1len lblen by (simp add: absorb_long absorb_short)
    have "fst (md5Final st)
        = md5_result (md5Transform (md5Transform h b1) (replicate 56 0 @ lb))"
      using False s z1 by (simp add: md5Final_def Let_def i_def [symmetric] h_def [symmetric]
          buf_def [symmetric] lb_def [symmetric] split: prod.splits)
    then show ?thesis
      using False by (simp only: pend plen md5_padding_def if_False whole ab fst_conv
          h_def [symmetric] lb_def [symmetric])
  qed
qed

lemma foldl_md5Update_absorb:
  assumes "length (buffer st) = 64"
  shows "state (foldl md5Update st chunks)
           = fst (md5_absorb (state st) (pending st @ concat chunks))
       \<and> pending (foldl md5Update st chunks)
           = snd (md5_absorb (state st) (pending st @ concat chunks))
       \<and> length (buffer (foldl md5Update st chunks)) = 64"
  using assms
proof (induction chunks arbitrary: st)
  case Nil
  have "length (pending st) < 64"
    using Nil index_lt [of "count st"] by (simp add: pending_def)
  then show ?case using Nil by (simp add: absorb_short)
next
  case (Cons c chunks)
  note u = md5Update_absorb [OF Cons.prems, of c]
  have l: "length (buffer (md5Update st c)) = 64" using u by simp
  have a: "md5_absorb (state st) (pending st @ c @ concat chunks)
      = md5_absorb (fst (md5_absorb (state st) (pending st @ c)))
          (snd (md5_absorb (state st) (pending st @ c)) @ concat chunks)"
    using absorb_append [of "state st" "pending st @ c" "concat chunks"] by simp
  show ?case
    using Cons.IH [OF l] u by (simp add: a)
qed


lemma md5Init_buffer: "length (buffer md5Init) = 64"
  by (simp add: md5Init_def)

lemma md5Init_pending: "pending md5Init = []"
proof -
  have "js_and (js_sar 0 3) 0x3F = 0" by (simp add: js_index)
  then show ?thesis by (simp add: pending_def md5Init_def)
qed

lemma count_foldl:
  "length (buffer st) = 64 \<Longrightarrow>
   count (foldl md5Update st chunks)
     = count st + sum_list (map (\<lambda>c. js_shl (int (length c)) 3) chunks)"
proof (induction chunks arbitrary: st)
  case Nil
  then show ?case by simp
next
  case (Cons c chunks)
  note u = md5Update_absorb [OF Cons.prems, of c]
  have l: "length (buffer (md5Update st c)) = 64" using u by simp
  show ?case using Cons.IH [OF l] u by simp
qed

text \<open>The digest of any sequence of updates, as one pass over the padded message.\<close>

lemma md5_digest_chunks:
  "fst (md5Final (foldl md5Update md5Init chunks))
     = md5_result (fst (md5_absorb (state md5Init)
         (concat chunks
            @ md5_padding (length (concat chunks) mod 64)
                (sum_list (map (\<lambda>c. js_shl (int (length c)) 3) chunks)))))"
proof -
  define S where "S = foldl md5Update md5Init chunks"
  note f = foldl_md5Update_absorb [OF md5Init_buffer, of chunks, folded S_def]
  have st: "state S = fst (md5_absorb (state md5Init) (concat chunks))"
    and pe: "pending S = snd (md5_absorb (state md5Init) (concat chunks))"
    and le: "length (buffer S) = 64"
    using f by (simp_all add: md5Init_pending)
  have cn: "count S = sum_list (map (\<lambda>c. js_shl (int (length c)) 3) chunks)"
    using count_foldl [OF md5Init_buffer, of chunks] by (simp add: S_def md5Init_def)
  have pl: "length (pending S) = length (concat chunks) mod 64"
    unfolding pe by (rule absorb_length)
  show ?thesis
    unfolding S_def [symmetric] md5Final_absorb [OF le] pl cn
    by (simp only: st pe absorb_append [symmetric])
qed


lemma setUint32_le_cong:
  assumes "take_bit 32 a = take_bit 32 b"
  shows "setUint32_le a = setUint32_le b"
  unfolding setUint32_le_def ToUint32_def assms ..

lemma js_and_all_ones: "js_and c 0xFFFFFFFF = ToInt32 c"
proof -
  have "ToInt32 0xFFFFFFFF = - 1" by code_simp
  then show ?thesis by (simp add: js_and_def)
qed

lemma take_bit_ToInt32: "take_bit 32 (ToInt32 c) = take_bit 32 c"
  unfolding ToInt32_def by (rule bit_eqI) (auto simp add: bit_simps)

lemma lengthBytes_eq:
  "lengthBytes c = setUint32_le c @ setUint32_le (trunc_quot c 4294967296)"
proof -
  have "setUint32_le (ToInt32 x) = setUint32_le x" for x
    by (rule setUint32_le_cong) (rule take_bit_ToInt32)
  then show ?thesis
    unfolding lengthBytes_def js_and_all_ones by (simp only:)
qed

lemma trunc_quot_small:
  "- 4294967296 < c \<Longrightarrow> c < 4294967296 \<Longrightarrow> trunc_quot c 4294967296 = 0"
  unfolding trunc_quot_def by auto

lemma lengthBytes_cong:
  assumes "take_bit 32 a = take_bit 32 b"
    and "- 4294967296 < a" "a < 4294967296" "- 4294967296 < b" "b < 4294967296"
  shows "lengthBytes a = lengthBytes b"
proof -
  have "setUint32_le a = setUint32_le b"
    using assms(1) by (rule setUint32_le_cong)
  moreover have "trunc_quot a 4294967296 = 0" "trunc_quot b 4294967296 = 0"
    using assms by (simp_all only: trunc_quot_small)
  ultimately show ?thesis
    by (simp only: lengthBytes_eq)
qed

lemma signed32_abs: "0 \<le> x \<Longrightarrow> \<bar>signed_take_bit 31 (x::int)\<bar> \<le> x"
proof (cases "x < 2 ^ 31")
  case True
  assume "0 \<le> x"
  then have "signed_take_bit 31 x = x"
    using True by (simp add: signed_take_bit_int_eq_self)
  then show ?thesis using \<open>0 \<le> x\<close> by simp
next
  case False
  have "- (2 ^ 31) \<le> signed_take_bit 31 x" "signed_take_bit 31 x < 2 ^ 31"
    using signed_take_bit_int_greater_eq_minus_exp [of 31 x]
      signed_take_bit_int_less_exp [of 31 x] by blast+
  then show ?thesis using False by simp
qed

lemma take_bit_signed32: "take_bit 32 (signed_take_bit 31 (x::int)) = take_bit 32 x"
  by (rule bit_eqI) (auto simp add: bit_simps)

lemma bit_count_bounds:
  "\<bar>bit_count chunks\<bar> \<le> 8 * int (length (concat chunks))
   \<and> take_bit 32 (bit_count chunks) = take_bit 32 (8 * int (length (concat chunks)))"
proof (induction chunks)
  case Nil
  then show ?case by (simp add: bit_count_def)
next
  case (Cons c chunks)
  have b: "bit_count (c # chunks) = signed_take_bit 31 (8 * int (length c)) + bit_count chunks"
    by (simp add: bit_count_def js_shl3)
  have l: "8 * int (length (concat (c # chunks)))
      = 8 * int (length c) + 8 * int (length (concat chunks))"
    by simp
  have a: "\<bar>signed_take_bit 31 (8 * int (length c))\<bar> \<le> 8 * int (length c)"
    by (rule signed32_abs) simp
  have t: "take_bit 32 (signed_take_bit 31 (8 * int (length c)) + bit_count chunks)
      = take_bit 32 (8 * int (length c) + 8 * int (length (concat chunks)))"
    using Cons.IH take_bit_signed32 [of "8 * int (length c)"]
    by (metis take_bit_add)
  show ?case
    unfolding b l using a Cons.IH t by linarith
qed

lemma md5_chunk_invariance_bounded:
  assumes "concat chunks = data" and "length data < 536870912"
  shows "fst (md5Final (foldl md5Update md5Init chunks))
       = fst (md5Final (md5Update md5Init data))"
proof -
  have one: "md5Update md5Init data = foldl md5Update md5Init [data]" by simp
  note b1 = bit_count_bounds [of chunks]
  note b2 = bit_count_bounds [of "[data]"]
  have n: "8 * int (length data) < 4294967296" using assms(2) by simp
  have "lengthBytes (bit_count chunks) = lengthBytes (bit_count [data])"
    by (rule lengthBytes_cong) (use b1 b2 n assms(1) in auto)
  then have "md5_padding k (bit_count chunks) = md5_padding k (bit_count [data])" for k
    by (simp add: md5_padding_def)
  then show ?thesis
    unfolding one md5_digest_chunks bit_count_def [symmetric] using assms(1) by simp
qed

lemma concat_replicate_replicate:
  "concat (replicate n (replicate m x)) = replicate (n * m) x"
  by (induction n) (simp_all add: replicate_add)

lemma bit_count_replicate:
  "bit_count (replicate n c) = int n * js_shl (int (length c)) 3"
  by (simp add: bit_count_def sum_list_replicate)

lemma md5_digest_one:
  "fst (md5Final (md5Update md5Init data))
     = md5_result (fst (md5_absorb (state md5Init)
         (data @ md5_padding (length data mod 64) (js_shl (int (length data)) 3))))"
  using md5_digest_chunks [of "[data]"] by simp

lemma md5Update_count:
  "count (md5Update st data) = count st + js_shl (int (length data)) 3"
  by (simp add: md5Update_def Let_def split: prod.splits)

text \<open>While every update call passes fewer than \<open>2 ^ 28\<close> bytes, \<open>data.length << 3\<close>
  does not overflow and the counter is eight times the number of bytes fed.\<close>

lemma bit_count_exact:
  "list_all (\<lambda>c. length c < 268435456) chunks \<Longrightarrow>
   bit_count chunks = 8 * int (length (concat chunks))"
proof (induction chunks)
  case Nil
  then show ?case by (simp add: bit_count_def)
next
  case (Cons c chunks)
  have "0 \<le> 8 * int (length c)" "8 * int (length c) < 2 ^ 31"
    using Cons.prems by simp_all
  then have "signed_take_bit 31 (8 * int (length c)) = 8 * int (length c)"
    by (simp only: signed_take_bit_int_eq_self)
  then show ?case
    using Cons by (simp add: bit_count_def js_shl3)
qed

lemma md5_count_exact:
  "list_all (\<lambda>c. length c < 268435456) chunks \<Longrightarrow>
   count (foldl md5Update md5Init chunks) = 8 * int (length (concat chunks))"
  using count_foldl [OF md5Init_buffer, of chunks] bit_count_exact [of chunks]
  by (simp add: bit_count_def md5Init_def)

text \<open>The eight length bytes are the little-endian bytes of the counter, and with
  fewer than \<open>2 ^ 28\<close> bytes per update the counter is the number of bits fed.\<close>

lemma byte_of_take_bit:
  "i < 4 \<Longrightarrow> (word_of_int (drop_bit (8 * i) (take_bit 32 x)) :: byte)
     = word_of_int (drop_bit (8 * i) x)"
  by (rule bit_word_eqI) (auto simp add: bit_simps)

lemma setUint32_le_bytes:
  "setUint32_le v = map (\<lambda>i. word_of_int (drop_bit (8 * i) v)) [0 ..< 4]"
proof -
  have "[0 ..< 4] = [0, 1, 2, 3::nat]" by (simp add: upt_conv_Cons)
  then show ?thesis
    using byte_of_take_bit [of 0 v] byte_of_take_bit [of 1 v] byte_of_take_bit [of 2 v]
      byte_of_take_bit [of 3 v]
    by (simp add: setUint32_le_def ToUint32_def Let_def)
qed

lemma lengthBytes_little_endian:
  assumes "0 \<le> c"
  shows "lengthBytes c = map (\<lambda>i. word_of_int (drop_bit (8 * i) c)) [0 ..< 8]"
proof -
  have q: "trunc_quot c 4294967296 = drop_bit 32 c"
    using assms by (simp add: trunc_quot_def drop_bit_eq_div)
  have "[0 ..< 8] = [0 ..< 4] @ map (\<lambda>i. 4 + i) [0 ..< 4]"
    by (simp add: upt_conv_Cons)
  then have "map (\<lambda>i. word_of_int (drop_bit (8 * i) c) :: byte) [0 ..< 8]
      = map (\<lambda>i. word_of_int (drop_bit (8 * i) c)) [0 ..< 4]
        @ map (\<lambda>i. word_of_int (drop_bit (8 * i) (drop_bit 32 c))) [0 ..< 4]"
    by (simp add: o_def add.commute)
  then show ?thesis
    by (simp only: lengthBytes_eq q setUint32_le_bytes)
qed

lemma md5_digest_exact:
  assumes "list_all (\<lambda>c. length c < 268435456) chunks"
  shows "count (foldl md5Update md5Init chunks) = 8 * int (length (concat chunks))
       \<and> fst (md5Final (foldl md5Update md5Init chunks))
           = md5_result (fst (md5_absorb (state md5Init)
               (concat chunks
                  @ md5_padding (length (concat chunks) mod 64)
                      (8 * int (length (concat chunks))))))"
  using md5_count_exact [OF assms] bit_count_exact [OF assms]
  by (simp add: md5_digest_chunks bit_count_def)

section \<open>Numbers stay exact\<close>

text \<open>Each of the four step functions returns a 32-bit integer plus its argument
  \<open>b\<close>, so over the 64 steps of a transform the locals \<open>a, b, c, d\<close> stay below
  \<open>2 ^ 32 + 64 * 2 ^ 31\<close> in magnitude, far below \<open>2 ^ 53\<close>: the doubles of the source
  hold them exactly, as the integers of the model do.\<close>

lemma ToInt32_range: "- 2147483648 \<le> ToInt32 x \<and> ToInt32 x < 2147483648"
  using signed_take_bit_int_greater_eq_minus_exp [of 31 x]
    signed_take_bit_int_less_exp [of 31 x] by (simp add: ToInt32_def)

lemma js_or_range: "- 2147483648 \<le> js_or a b \<and> js_or a b < 2147483648"
proof -
  have "js_or a b = ToInt32 (js_or a b)"
    unfolding js_or_def ToInt32_def by (rule bit_eqI) (auto simp add: bit_simps)
  then show ?thesis using ToInt32_range [of "js_or a b"] by simp
qed

lemma js_or_abs: "\<bar>js_or p q\<bar> \<le> 2147483648"
  using js_or_range [of p q] by linarith

lemma md5_step_bound:
  "\<bar>md5FF a b c d x s t - b\<bar> \<le> 2147483648"
  "\<bar>md5GG a b c d x s t - b\<bar> \<le> 2147483648"
  "\<bar>md5HH a b c d x s t - b\<bar> \<le> 2147483648"
  "\<bar>md5II a b c d x s t - b\<bar> \<le> 2147483648"
  by (simp_all add: md5FF_def md5GG_def md5HH_def md5II_def Let_def js_or_abs)

section \<open>Finalizing a hash object\<close>

lemma md5_result_length: "length (md5_result h) = 16"
  unfolding md5_result_def length_concat by (simp add: upt_conv_Cons)

lemma md5Final_length: "length (fst (md5Final s)) = 16"
  unfolding md5Final_def Let_def case_prod_beta fst_conv by (rule md5_result_length)

lemma finalizeHash_MD5:
  "finalizeHash P (Js ''MD5'' s) = (Inr (fst (md5Final s)), Js ''MD5'' (snd (md5Final s)))"
  by (simp add: case_prod_beta)

section \<open>Events of the chunk loops\<close>

lemma progress_values_simps [simp]:
  "progress_values [] = []"
  "progress_values (Read a b # evs) = progress_values evs"
  "progress_values (Update s n # evs) = progress_values evs"
  "progress_values (Progress p t # evs) = p # progress_values evs"
  "progress_values (xs @ ys) = progress_values xs @ progress_values ys"
  by (simp_all add: progress_values_def)

lemma progress_ok_single: "lo < hi \<Longrightarrow> progress_ok lo hi [hi]"
  by (simp add: progress_ok_def)

lemma progress_ok_cons:
  "progress_ok mid hi ps \<Longrightarrow> lo < mid \<Longrightarrow> mid < hi \<Longrightarrow> progress_ok lo hi (mid # ps)"
  by (cases ps) (auto simp add: progress_ok_def list_all_iff)

lemma processChunk_progress:
  "processChunk P S fl alg c h offset processed = Some (Inr res, evs) \<Longrightarrow>
   offset < file_size fl \<Longrightarrow>
   progress_ok processed (processed + (file_size fl - offset)) (progress_values evs)"
proof (induction "file_size fl - offset" arbitrary: h offset processed evs rule: less_induct)
  case less
  define chunk where "chunk = take c (drop offset (bytes fl))"
  define n where "n = length chunk"
  have nle: "n \<le> file_size fl - offset"
    by (simp add: n_def chunk_def file_size_def)
  note eq = less.prems(1) [unfolded processChunk.simps [of P S fl alg c h offset processed],
      folded chunk_def, unfolded Let_def, folded n_def]
  have ok: "read_ok fl offset"
    using eq by (auto split: if_splits)
  show ?case
  proof (cases "offset + n < file_size fl")
    case True
    have ne: "chunk \<noteq> []" using eq ok True by (auto split: if_splits)
    then have npos: "0 < n" by (simp add: n_def)
    obtain es where rec: "processChunk P S fl alg c (updateHash h chunk) (offset + n)
          (processed + n) = Some (Inr res, es)"
      and evs: "evs = [Read offset n, Update alg n, Progress (processed + n) (file_size fl)] @ es"
      using eq ok True ne by (auto split: if_splits)
    have "progress_ok (processed + n) (processed + n + (file_size fl - (offset + n)))
        (progress_values es)"
      using less.hyps [OF _ rec True] npos True by simp
    moreover have "processed + n + (file_size fl - (offset + n))
        = processed + (file_size fl - offset)"
      using True by simp
    ultimately have "progress_ok processed (processed + (file_size fl - offset))
        ((processed + n) # progress_values es)"
      using npos True by (intro progress_ok_cons) auto
    then show ?thesis by (simp add: evs)
  next
    case False
    then have n: "n = file_size fl - offset" using nle by simp
    have "evs = [Read offset n, Update alg n, Progress (processed + n) (file_size fl)]"
      using eq ok False by (auto split: if_splits sum.splits)
    then show ?thesis
      using less.prems(2) by (simp add: n progress_ok_single)
  qed
qed

lemma readNextChunk_progress:
  "readNextChunk fl c chunks offset = Some (Inr buf, evs) \<Longrightarrow>
   offset < file_size fl \<Longrightarrow>
   progress_ok offset (file_size fl) (progress_values evs)"
proof (induction "file_size fl - offset" arbitrary: chunks offset evs rule: less_induct)
  case less
  define chunk where "chunk = take c (drop offset (bytes fl))"
  define n where "n = length chunk"
  have nle: "n \<le> file_size fl - offset"
    by (simp add: n_def chunk_def file_size_def)
  note eq = less.prems(1) [unfolded readNextChunk.simps [of fl c chunks offset],
      folded chunk_def, unfolded Let_def, folded n_def]
  have ok: "read_ok fl offset"
    using eq by (auto split: if_splits)
  show ?case
  proof (cases "offset + n < file_size fl")
    case True
    have ne: "chunk \<noteq> []" using eq ok True by (auto split: if_splits)
    then have npos: "0 < n" by (simp add: n_def)
    obtain es where rec: "readNextChunk fl c (chunks @ [chunk]) (offset + n) = Some (Inr buf, es)"
      and evs: "evs = [Read offset n, Progress (offset + n) (file_size fl)] @ es"
      using eq ok True ne by (auto split: if_splits)
    have "progress_ok (offset + n) (file_size fl) (progress_values es)"
      using less.hyps [OF _ rec True] npos True by simp
    then have "progress_ok offset (file_size fl) ((offset + n) # progress_values es)"
      using npos True by (intro progress_ok_cons) auto
    then show ?thesis by (simp add: evs)
  next
    case False
    then have n: "offset + n = file_size fl" using nle less.prems(2) by simp
    have "evs = [Read offset n, Progress (offset + n) (file_size fl)]"
      using eq ok False by (auto split: if_splits)
    then show ?thesis
      using less.prems(2) by (simp add: n progress_ok_single)
  qed
qed


lemma progress_ok_once:
  assumes "progress_ok lo hi ps"
  shows "ps \<noteq> [] \<and> sorted ps \<and> last ps = hi \<and> length (filter (\<lambda>p. p = hi) ps) = 1"
proof -
  have ne: "ps \<noteq> []" and l: "last ps = hi" and s: "sorted ps"
    and b: "list_all (\<lambda>p. p < hi) (butlast ps)"
    using assms by (simp_all add: progress_ok_def)
  have f: "filter (\<lambda>p. p = hi) (butlast ps) = []"
    using b by (auto simp add: filter_empty_conv list_all_iff)
  have e: "butlast ps @ [hi] = ps"
    using append_butlast_last_id [OF ne] l by simp
  have "filter (\<lambda>p. p = hi) (butlast ps @ [hi]) = [hi]"
    using f by simp
  then have "filter (\<lambda>p. p = hi) ps = [hi]"
    by (simp only: e)
  then show ?thesis using ne l s by simp
qed

lemma calculateHash_unfold:
  "calculateHash P S fl alg options =
     (if \<not> isAlgorithmSupported alg then Some (Inl (UnsupportedAlgorithm alg), [])
      else if take 5 alg = ''hmac-''
      then calculateHMAC P S fl (drop 5 alg) (hmacKey options)
             (case opt_chunkSize options of None \<Rightarrow> chunkSize S | Some n \<Rightarrow> n)
      else
        (case createHashInstance P alg of
           Inl e \<Rightarrow> Some (Inl e, [])
         | Inr hashBuffer \<Rightarrow>
             if file_size fl \<le> (case opt_chunkSize options of None \<Rightarrow> chunkSize S | Some n \<Rightarrow> n)
             then (if \<not> read_ok fl 0
                   then Some (Inl FileReadFailed, [Read 0 (file_size fl)])
                   else
                     (case fst (finalizeHash P (updateHash hashBuffer (bytes fl))) of
                        Inl e \<Rightarrow>
                          Some (Inl e, [Read 0 (file_size fl), Update alg (file_size fl)])
                      | Inr h \<Rightarrow>
                          Some (Inr \<lparr>algorithm = alg,
                                     hash = bufferToHex h (resultFormat S)\<rparr>,
                                [Read 0 (file_size fl), Update alg (file_size fl),
                                 Progress (file_size fl) (file_size fl)])))
             else processChunk P S fl alg
                    (case opt_chunkSize options of None \<Rightarrow> chunkSize S | Some n \<Rightarrow> n)
                    hashBuffer 0 0))"
  unfolding calculateHash_def Let_def ..

lemma calculateHMAC_resolved:
  assumes "calculateHMAC P S fl alg key c = Some (Inr res, evs)"
  shows "\<exists>buf. readFileAsArrayBuffer fl c = Some (Inr buf, evs)"
proof -
  note eq = assms [unfolded calculateHMAC_def Let_def]
  obtain cryptoAlgo where a: "hmac_cryptoAlgoMap alg = Some cryptoAlgo"
    using eq by (cases "hmac_cryptoAlgoMap alg") simp_all
  obtain k where k: "subtle_importKey P cryptoAlgo
      (TextEncoder_encode (case key of None \<Rightarrow> [] | Some k \<Rightarrow> k)) = Inr k"
    using eq a by (cases "subtle_importKey P cryptoAlgo
      (TextEncoder_encode (case key of None \<Rightarrow> [] | Some k \<Rightarrow> k))") simp_all
  show ?thesis
  proof (cases "readFileAsArrayBuffer fl c")
    case None
    then show ?thesis using eq a k by simp
  next
    case (Some p)
    obtain r es where p: "p = (r, es)" by (cases p)
    show ?thesis
    proof (cases r)
      case (Inl e)
      then show ?thesis using eq a k Some p by simp
    next
      case (Inr buf)
      then have "es = evs" using eq a k Some p
        by (cases "subtle_sign P k buf") simp_all
      then show ?thesis using Some p Inr by simp
    qed
  qed
qed


lemma readFileAsArrayBuffer_progress:
  assumes "readFileAsArrayBuffer fl c = Some (Inr buf, evs)"
  shows "progress_values evs = [file_size fl]
       \<or> progress_ok 0 (file_size fl) (progress_values evs)"
proof (cases "file_size fl \<le> c")
  case True
  then have "evs = [Read 0 (file_size fl), Progress (file_size fl) (file_size fl)]"
    using assms by (cases "read_ok fl 0") (simp_all add: readFileAsArrayBuffer_def)
  then show ?thesis by simp
next
  case False
  then have "readNextChunk fl c [] 0 = Some (Inr buf, evs)" "0 < file_size fl"
    using assms by (simp_all add: readFileAsArrayBuffer_def)
  then show ?thesis using readNextChunk_progress by blast
qed

lemma traversals_simps [simp]:
  "traversals [] = 0"
  "traversals (Read a b # evs) = (if a = 0 then 1 else 0) + traversals evs"
  "traversals (Update s n # evs) = traversals evs"
  "traversals (Progress p t # evs) = traversals evs"
  "traversals (xs @ ys) = traversals xs + traversals ys"
  by (simp_all add: traversals_def is_first_read_def)

lemma processChunk_traversals:
  "processChunk P S fl alg c h offset processed = Some (r, evs) \<Longrightarrow>
   traversals evs = (if offset = 0 then 1 else 0)"
proof (induction "file_size fl - offset" arbitrary: h offset processed evs rule: less_induct)
  case less
  define chunk where "chunk = take c (drop offset (bytes fl))"
  define n where "n = length chunk"
  note eq = less.prems(1) [unfolded processChunk.simps [of P S fl alg c h offset processed],
      folded chunk_def, unfolded Let_def, folded n_def]
  show ?case
  proof (cases "read_ok fl offset")
    case False
    then show ?thesis using eq by auto
  next
    case ok: True
    show ?thesis
    proof (cases "offset + n < file_size fl")
      case True
      have ne: "chunk \<noteq> []" using eq ok True by (auto split: if_splits)
      then have npos: "0 < n" by (simp add: n_def)
      obtain es where rec: "processChunk P S fl alg c (updateHash h chunk) (offset + n)
            (processed + n) = Some (r, es)"
        and evs: "evs = [Read offset n, Update alg n, Progress (processed + n) (file_size fl)] @ es"
        using eq ok True ne by (auto split: if_splits)
      have "traversals es = 0"
        using less.hyps [OF _ rec] npos True by simp
      then show ?thesis by (simp add: evs)
    next
      case False
      have "evs = [Read offset n, Update alg n, Progress (processed + n) (file_size fl)]"
        using eq ok False by (auto split: if_splits sum.splits)
      then show ?thesis by simp
    qed
  qed
qed

lemma readNextChunk_traversals:
  "readNextChunk fl c chunks offset = Some (r, evs) \<Longrightarrow>
   traversals evs = (if offset = 0 then 1 else 0)"
proof (induction "file_size fl - offset" arbitrary: chunks offset evs rule: less_induct)
  case less
  define chunk where "chunk = take c (drop offset (bytes fl))"
  define n where "n = length chunk"
  note eq = less.prems(1) [unfolded readNextChunk.simps [of fl c chunks offset],
      folded chunk_def, unfolded Let_def, folded n_def]
  show ?case
  proof (cases "read_ok fl offset")
    case False
    then show ?thesis using eq by auto
  next
    case ok: True
    show ?thesis
    proof (cases "offset + n < file_size fl")
      case True
      have ne: "chunk \<noteq> []" using eq ok True by (auto split: if_splits)
      then have npos: "0 < n" by (simp add: n_def)
      obtain es where rec: "readNextChunk fl c (chunks @ [chunk]) (offset + n) = Some (r, es)"
        and evs: "evs = [Read offset n, Progress (offset + n) (file_size fl)] @ es"
        using eq ok True ne by (auto split: if_splits)
      have "traversals es = 0"
        using less.hyps [OF _ rec] npos True by simp
      then show ?thesis by (simp add: evs)
    next
      case False
      have "evs = [Read offset n, Progress (offset + n) (file_size fl)]"
        using eq ok False by (auto split: if_splits)
      then show ?thesis by simp
    qed
  qed
qed

lemma readFileAsArrayBuffer_traversals:
  "readFileAsArrayBuffer fl c = Some (r, evs) \<Longrightarrow> traversals evs = 1"
  using readNextChunk_traversals [of fl c "[]" 0 r evs]
  by (auto simp add: readFileAsArrayBuffer_def split: if_splits)

lemma calculateHMAC_traversals:
  assumes "calculateHMAC P S fl alg key c = Some (r, evs)"
  shows "traversals evs =
     (case hmac_cryptoAlgoMap alg of
        None \<Rightarrow> 0
      | Some cryptoAlgo \<Rightarrow>
          if isl (subtle_importKey P cryptoAlgo
                   (TextEncoder_encode (case key of None \<Rightarrow> [] | Some k \<Rightarrow> k)))
          then 0 else 1)"
proof -
  note eq = assms [unfolded calculateHMAC_def Let_def]
  show ?thesis
  proof (cases "hmac_cryptoAlgoMap alg")
    case None
    then show ?thesis using eq by simp
  next
    case (Some cryptoAlgo)
    note a = Some
    show ?thesis
    proof (cases "subtle_importKey P cryptoAlgo
        (TextEncoder_encode (case key of None \<Rightarrow> [] | Some k \<Rightarrow> k))")
      case (Inl msg)
      then show ?thesis using eq a by simp
    next
      case (Inr k)
      note k = Inr
      show ?thesis
      proof (cases "readFileAsArrayBuffer fl c")
        case None
        then show ?thesis using eq a k by simp
      next
        case (Some p)
        obtain rr es where p: "p = (rr, es)" by (cases p)
        have t: "traversals es = 1"
          using Some p readFileAsArrayBuffer_traversals by blast
        have "es = evs"
          using eq a k Some p
          by (cases rr; cases "subtle_sign P k (projr rr)") (auto split: sum.splits)
        then show ?thesis using t a k by simp
      qed
    qed
  qed
qed

lemma calculateHash_traversals:
  assumes "calculateHash P S fl alg options = Some (r, evs)"
  shows "traversals evs = (if reads_input P options alg then 1 else 0)"
proof -
  define c where "c = (case opt_chunkSize options of None \<Rightarrow> chunkSize S | Some n \<Rightarrow> n)"
  define hm where "hm \<longleftrightarrow> take 5 alg = ''hmac-''"
  define sup where "sup \<longleftrightarrow> isAlgorithmSupported alg"
  note eq = assms [unfolded calculateHash_unfold, folded c_def hm_def sup_def]
  note ri = reads_input_def [of P options alg, folded hm_def sup_def]
  show ?thesis
  proof (cases sup)
    case False
    then show ?thesis using eq by (simp add: ri)
  next
    case sup: True
    show ?thesis
    proof (cases hm)
      case True
      then have "calculateHMAC P S fl (drop 5 alg) (hmacKey options) c = Some (r, evs)"
        using eq sup by simp
      from calculateHMAC_traversals [OF this] show ?thesis
        using sup True by (simp add: ri split: option.splits)
    next
      case nh: False
      show ?thesis
      proof (cases "createHashInstance P alg")
        case (Inl e)
        then show ?thesis using eq sup nh by (simp add: ri)
      next
        case (Inr h)
        show ?thesis
        proof (cases "file_size fl \<le> c")
          case True
          then have "traversals evs = 1"
            using eq sup nh Inr
            by (cases "read_ok fl 0"; cases "fst (finalizeHash P (updateHash h (bytes fl)))")
              auto
          then show ?thesis using sup nh Inr by (simp add: ri)
        next
          case False
          then have "processChunk P S fl alg c h 0 0 = Some (r, evs)"
            using eq sup nh Inr by simp
          from processChunk_traversals [OF this] show ?thesis
            using sup nh Inr by (simp add: ri)
        qed
      qed
    qed
  qed
qed

section \<open>The loop over the requested algorithms\<close>

lemma obj_get_put:
  "obj_get (obj_put obj k v) k' = (if k' = k then Some v else obj_get obj k')"
  by (induction obj) (auto simp add: obj_get_def)

lemma obj_get_set:
  "obj_get (obj_set obj k v) k'
     = (if k' = k \<and> k \<noteq> ''__proto__'' then Some v else obj_get obj k')"
  by (simp add: obj_set_def obj_get_put)

lemma obj_get_foldl_set:
  "alg \<in> set rest \<Longrightarrow> alg \<noteq> ''__proto__'' \<Longrightarrow>
   obj_get (foldl (\<lambda>obj a. obj_set obj a (f a)) results rest) alg = Some (f alg)"
proof (induction rest rule: rev_induct)
  case Nil
  then show ?case by simp
next
  case (snoc x xs)
  show ?case
  proof (cases "alg = x")
    case True
    then show ?thesis using snoc.prems by (simp add: obj_get_set)
  next
    case False
    then have "alg \<in> set xs" using snoc.prems by simp
    then show ?thesis using snoc.IH snoc.prems False by (simp add: obj_get_set)
  qed
qed

lemma forwarded_not_progress:
  "filter (\<lambda>e. (is_progress e \<longrightarrow> b) \<and> \<not> is_progress e) evs
     = filter (\<lambda>e. \<not> is_progress e) evs"
  by (rule filter_cong) auto

lemma forwarded_traversals:
  "traversals (filter (\<lambda>e. is_progress e \<longrightarrow> b) evs) = traversals evs"
proof -
  have "is_first_read e \<Longrightarrow> \<not> is_progress e" for e
    by (cases e) (simp_all add: is_first_read_def is_progress_def)
  then have "filter is_first_read (filter (\<lambda>e. is_progress e \<longrightarrow> b) evs)
      = filter is_first_read evs"
    by (induction evs) auto
  then show ?thesis by (simp add: traversals_def)
qed

lemma hashes_loop_Some:
  "hashes_loop P S fl algorithms options rest results = Some (res, evs) \<Longrightarrow>
   list_all (\<lambda>alg. calculateHash P S fl alg options \<noteq> None) rest
   \<and> res = foldl (\<lambda>obj alg. obj_set obj alg
               (case calculateHash P S fl alg options of
                  None \<Rightarrow> [] | Some (r, es) \<Rightarrow> result_slot r)) results rest
   \<and> traversals evs
       = sum_list (map (\<lambda>alg. traversals (events_of (calculateHash P S fl alg options))) rest)
   \<and> filter (\<lambda>e. \<not> is_progress e) evs
       = concat (map (\<lambda>alg. filter (\<lambda>e. \<not> is_progress e)
                            (events_of (calculateHash P S fl alg options))) rest)"
proof (induction rest arbitrary: results res evs)
  case Nil
  then show ?case by simp
next
  case (Cons alg rest)
  obtain r es where c: "calculateHash P S fl alg options = Some (r, es)"
    using Cons.prems by (cases "calculateHash P S fl alg options") auto
  define b where "b \<longleftrightarrow> (case algorithms of [] \<Rightarrow> False | first # _ \<Rightarrow> alg = first)"
  define results' where "results' = obj_set results alg (result_slot r)"
  obtain res' es' where l: "hashes_loop P S fl algorithms options rest results' = Some (res', es')"
    and e: "evs = filter (\<lambda>e. is_progress e \<longrightarrow> b) es @ es'" and r: "res = res'"
    using Cons.prems c
    by (auto simp add: Let_def b_def results'_def result_slot_def split: option.splits)
  note ih = Cons.IH [OF l]
  show ?case
    using ih c
    by (simp add: e r results'_def events_of_def forwarded_not_progress forwarded_traversals)
qed

lemma hashes_loop_settles:
  "list_all (\<lambda>alg. calculateHash P S fl alg options \<noteq> None) rest \<Longrightarrow>
   hashes_loop P S fl algorithms options rest results \<noteq> None"
proof (induction rest arbitrary: results)
  case Nil
  then show ?case by simp
next
  case (Cons alg rest)
  obtain r es where c: "calculateHash P S fl alg options = Some (r, es)"
    using Cons.prems by auto
  show ?case
    using Cons.IH Cons.prems c by (simp add: Let_def)
qed

lemma length_filter_sum:
  "sum_list (map (\<lambda>x. if p x then 1 else 0) xs) = length (filter p xs)"
  by (induction xs) simp_all

lemma two_algorithms_run:
  "calculateMultipleHashes broken_crypto two_byte_chunks three_bytes [''md5'', ''sha256'']
     no_options
   = Some (\<lparr>filename = ''three.bin'', size_bytes = 3,
            hashValues = [(''md5'', ''5289df737df57326fcdd22597afb1fac''),
                          (''sha256'', failure_prefix @ ''OperationError'')]\<rparr>,
           [Read 0 2, Update ''md5'' 2, Progress 2 3, Read 2 1, Update ''md5'' 1,
            Progress 3 3, Read 0 2, Update ''sha256'' 2, Read 2 1, Update ''sha256'' 1])"
  by code_simp

lemma md5_alone_run:
  "calculateHash broken_crypto two_byte_chunks three_bytes ''md5'' no_options
   = Some (Inr \<lparr>algorithm = ''md5'', hash = ''5289df737df57326fcdd22597afb1fac''\<rparr>,
           [Read 0 2, Update ''md5'' 2, Progress 2 3, Read 2 1, Update ''md5'' 1,
            Progress 3 3])"
  by code_simp

section \<open>Grouping by exact digest\<close>

lemma first_seen_snoc:
  "first_seen (xs @ [x]) = (if x \<in> set xs then first_seen xs else first_seen xs @ [x])"
  by (simp add: first_seen_def)

lemma set_first_seen: "set (first_seen xs) = set xs"
  by (simp add: first_seen_def)

lemma distinct_first_seen: "distinct (first_seen xs)"
  by (simp add: first_seen_def)

lemma obj_get_map:
  "obj_get (map (\<lambda>k. (k, F k)) D) k = (if k \<in> set D then Some (F k) else None)"
  by (induction D) (auto simp add: obj_get_def)

lemma obj_put_fresh:
  "k \<notin> set D \<Longrightarrow>
   obj_put (map (\<lambda>k'. (k', F k')) D) k v = map (\<lambda>k'. (k', F k')) D @ [(k, v)]"
  by (induction D) auto

lemma obj_put_present:
  "distinct D \<Longrightarrow> k \<in> set D \<Longrightarrow>
   obj_put (map (\<lambda>k'. (k', F k')) D) k v
     = map (\<lambda>k'. (k', if k' = k then v else F k')) D"
  by (induction D) auto

lemma group_by_hash_append:
  "group_by_hash alg (xs @ ys) acc
     = (case group_by_hash alg xs acc of Inl e \<Rightarrow> Inl e | Inr g \<Rightarrow> group_by_hash alg ys g)"
  by (induction xs arbitrary: acc) (simp_all add: Let_def)

lemma exact_groups_snoc:
  "exact_groups alg (xs @ [x])
     = obj_put (exact_groups alg xs) (digest_key alg x)
         ((case obj_get (exact_groups alg xs) (digest_key alg x) of
             None \<Rightarrow> [] | Some files \<Rightarrow> files) @ [filename x])"
proof -
  define k where "k = digest_key alg x"
  define D where "D = first_seen (map (digest_key alg) xs)"
  define F where "F = (\<lambda>k'. map filename (filter (\<lambda>r. digest_key alg r = k') xs))"
  have G: "exact_groups alg xs = map (\<lambda>k'. (k', F k')) D"
    by (simp add: exact_groups_def D_def F_def)
  have dD: "distinct D" by (simp add: D_def distinct_first_seen)
  have sD: "set D = digest_key alg ` set xs" by (simp add: D_def set_first_seen)
  show ?thesis
  proof (cases "k \<in> set D")
    case True
    then have fs: "first_seen (map (digest_key alg) (xs @ [x])) = D"
      using sD by (simp add: first_seen_snoc D_def k_def)
    have "exact_groups alg (xs @ [x])
        = map (\<lambda>k'. (k', if k' = k then F k @ [filename x] else F k')) D"
      unfolding exact_groups_def fs by (auto simp add: F_def k_def)
    also have "\<dots> = obj_put (map (\<lambda>k'. (k', F k')) D) k (F k @ [filename x])"
      by (rule obj_put_present [OF dD True, where F = F and v = "F k @ [filename x]",
            symmetric])
    finally show ?thesis
      using True by (simp add: G obj_get_map k_def [symmetric])
  next
    case False
    then have fs: "first_seen (map (digest_key alg) (xs @ [x])) = D @ [k]"
      using sD by (simp add: first_seen_snoc D_def k_def)
    have Fk: "F k = []" using False sD by (auto simp add: F_def filter_empty_conv)
    have "exact_groups alg (xs @ [x]) = map (\<lambda>k'. (k', F k')) D @ [(k, [filename x])]"
      unfolding exact_groups_def fs using False Fk by (auto simp add: F_def k_def)
    also have "\<dots> = obj_put (map (\<lambda>k'. (k', F k')) D) k ([] @ [filename x])"
      by (simp add: obj_put_fresh [OF False, where F = F and v = "[filename x]"])
    finally show ?thesis
      using False by (simp add: G obj_get_map k_def [symmetric])
  qed
qed

lemma group_by_hash_exact:
  "list_all (\<lambda>r. digest_key alg r \<notin> set Object_prototype_names) results \<Longrightarrow>
   group_by_hash alg results [] = Inr (exact_groups alg results)"
proof (induction results rule: rev_induct)
  case Nil
  then show ?case by (simp add: exact_groups_def first_seen_def)
next
  case (snoc x xs)
  have np: "digest_key alg x \<notin> set Object_prototype_names"
    and ih: "group_by_hash alg xs [] = Inr (exact_groups alg xs)"
    using snoc by simp_all
  have "''__proto__'' \<in> set Object_prototype_names"
    by (simp add: Object_prototype_names_def)
  then have nproto: "digest_key alg x \<noteq> ''__proto__''" using np by auto
  show ?case
    using np nproto
    by (simp add: group_by_hash_append ih Let_def exact_groups_snoc obj_set_def
        digest_key_def [symmetric])
qed


lemma Object_entries_plain:
  "list_all (\<lambda>(k, v). \<not> is_array_index k) obj \<Longrightarrow> Object_entries obj = obj"
proof -
  assume a: "list_all (\<lambda>(k, v). \<not> is_array_index k) obj"
  then have "filter (\<lambda>(k, v). is_array_index k) obj = []"
    by (auto simp add: filter_empty_conv list_all_iff)
  moreover have "filter (\<lambda>(k, v). \<not> is_array_index k) obj = obj"
    using a by (auto simp add: filter_id_conv list_all_iff)
  ultimately show ?thesis by (simp add: Object_entries_def)
qed

lemma exact_groups_keys:
  "map fst (exact_groups alg results) = first_seen (map (digest_key alg) results)"
  by (simp add: exact_groups_def o_def)

lemma compare_algorithm_exact:
  assumes "list_all (\<lambda>r. plain_key (digest_key alg r)) results"
  shows "compare_algorithm results alg
       = Inr (if length (exact_groups alg results) = 1 then AllSame
              else Groups (exact_groups alg results))"
proof -
  have p: "list_all (\<lambda>r. digest_key alg r \<notin> set Object_prototype_names) results"
    using assms by (simp add: plain_key_def list_all_iff)
  have "\<forall>k \<in> set (map fst (exact_groups alg results)). \<not> is_array_index k"
    unfolding exact_groups_keys set_first_seen
    using assms by (auto simp add: plain_key_def list_all_iff)
  then have "list_all (\<lambda>(k, v). \<not> is_array_index k) (exact_groups alg results)"
    by (auto simp add: list_all_iff)
  then have e: "Object_entries (exact_groups alg results) = exact_groups alg results"
    by (rule Object_entries_plain)
  show ?thesis
    by (simp add: compare_algorithm_def group_by_hash_exact [OF p] Object_keys_def e Let_def)
qed

lemma compare_all_map:
  "list_all (\<lambda>alg. compare_algorithm results alg = Inr (f alg)) algs \<Longrightarrow>
   compare_all results algs = Inr (map (\<lambda>alg. (alg, f alg)) algs)"
  by (induction algs) simp_all

lemma exact_groups_one:
  "length (exact_groups alg results) = 1
     \<longleftrightarrow> (\<exists>k. digest_key alg ` set results = {k})"
proof -
  have "length (exact_groups alg results) = card (digest_key alg ` set results)"
    using distinct_card [OF distinct_first_seen [of "map (digest_key alg) results"]]
    by (simp add: exact_groups_def set_first_seen)
  then show ?thesis by (simp add: card_1_singleton_iff)
qed

lemma three_reports_plain:
  "2 \<le> length [report_a, report_b, report_c]
   \<and> list_all (\<lambda>alg. list_all (\<lambda>r. plain_key (digest_key alg r))
                        [report_a, report_b, report_c])
       (all_algorithms [report_a, report_b, report_c])"
  by code_simp

lemma three_reports_groups:
  "map (\<lambda>alg. (alg, if length (exact_groups alg [report_a, report_b, report_c]) = 1
                     then AllSame
                     else Groups (exact_groups alg [report_a, report_b, report_c])))
     (all_algorithms [report_a, report_b, report_c])
   = [(''md5'', Groups [(''d41d8cd98f00b204e9800998ecf8427e'', [''a.bin'', ''c.bin'']),
                        (''5289df737df57326fcdd22597afb1fac'', [''b.bin''])])]"
  by code_simp

section \<open>Positive chunk sizes settle\<close>

text \<open>With a positive chunk size every chunk read below the end of the file is not
  empty, so both chunk loops come to an end and every computation settles.\<close>

lemma processChunk_settles:
  "0 < c \<Longrightarrow> offset < file_size fl \<Longrightarrow>
   \<exists>r evs. processChunk P S fl alg c h offset processed = Some (r, evs)"
proof (induction "file_size fl - offset" arbitrary: h offset processed rule: less_induct)
  case less
  define chunk where "chunk = take c (drop offset (bytes fl))"
  define n where "n = length chunk"
  have npos: "0 < n"
    using less.prems by (simp add: n_def chunk_def file_size_def)
  then have ne: "chunk \<noteq> []" by (auto simp add: n_def)
  note eq = processChunk.simps [of P S fl alg c h offset processed,
      folded chunk_def, unfolded Let_def, folded n_def]
  show ?case
  proof (cases "read_ok fl offset")
    case False
    then show ?thesis by (simp add: eq)
  next
    case ok: True
    show ?thesis
    proof (cases "offset + n < file_size fl")
      case True
      have "file_size fl - (offset + n) < file_size fl - offset"
        using npos True by simp
      from less.hyps [OF this less.prems(1) True]
      obtain r es where "processChunk P S fl alg c (updateHash h chunk) (offset + n)
          (processed + n) = Some (r, es)"
        by blast
      then show ?thesis using ok True ne by (simp add: eq)
    next
      case False
      then show ?thesis using ok
        by (cases "fst (finalizeHash P (updateHash h chunk))") (simp_all add: eq)
    qed
  qed
qed

lemma readNextChunk_settles:
  "0 < c \<Longrightarrow> offset < file_size fl \<Longrightarrow>
   \<exists>r evs. readNextChunk fl c chunks offset = Some (r, evs)"
proof (induction "file_size fl - offset" arbitrary: chunks offset rule: less_induct)
  case less
  define chunk where "chunk = take c (drop offset (bytes fl))"
  define n where "n = length chunk"
  have npos: "0 < n"
    using less.prems by (simp add: n_def chunk_def file_size_def)
  then have ne: "chunk \<noteq> []" by (auto simp add: n_def)
  note eq = readNextChunk.simps [of fl c chunks offset,
      folded chunk_def, unfolded Let_def, folded n_def]
  show ?case
  proof (cases "read_ok fl offset")
    case False
    then show ?thesis by (simp add: eq)
  next
    case ok: True
    show ?thesis
    proof (cases "offset + n < file_size fl")
      case True
      have "file_size fl - (offset + n) < file_size fl - offset"
        using npos True by simp
      from less.hyps [OF this less.prems(1) True]
      obtain r es where "readNextChunk fl c (chunks @ [chunk]) (offset + n) = Some (r, es)"
        by blast
      then show ?thesis using ok True ne by (simp add: eq)
    next
      case False
      then show ?thesis using ok by (simp add: eq)
    qed
  qed
qed

lemma readFileAsArrayBuffer_settles:
  "0 < c \<Longrightarrow> \<exists>r evs. readFileAsArrayBuffer fl c = Some (r, evs)"
  using readNextChunk_settles [of c 0 fl "[]"]
  by (auto simp add: readFileAsArrayBuffer_def)

lemma calculateHMAC_settles:
  assumes "0 < c"
  shows "\<exists>r evs. calculateHMAC P S fl alg key c = Some (r, evs)"
proof -
  obtain rr es where rd: "readFileAsArrayBuffer fl c = Some (rr, es)"
    using readFileAsArrayBuffer_settles [OF assms] by blast
  show ?thesis
    unfolding calculateHMAC_def Let_def rd
    by (auto split: option.splits sum.splits)
qed

lemma calculateHash_settles:
  assumes "0 < (case opt_chunkSize options of None \<Rightarrow> chunkSize S | Some n \<Rightarrow> n)"
  shows "\<exists>r evs. calculateHash P S fl alg options = Some (r, evs)"
proof -
  define c where "c = (case opt_chunkSize options of None \<Rightarrow> chunkSize S | Some n \<Rightarrow> n)"
  define hm where "hm \<longleftrightarrow> take 5 alg = ''hmac-''"
  define sup where "sup \<longleftrightarrow> isAlgorithmSupported alg"
  have c: "0 < c" using assms by (simp add: c_def)
  note eq = calculateHash_unfold [of P S fl alg options, folded c_def hm_def sup_def]
  show ?thesis
  proof (cases "sup \<and> \<not> hm")
    case False
    then show ?thesis
      using calculateHMAC_settles [OF c, of P S fl "drop 5 alg" "hmacKey options"]
      by (auto simp add: eq)
  next
    case True
    show ?thesis
    proof (cases "createHashInstance P alg")
      case (Inl e)
      then show ?thesis using True by (simp add: eq)
    next
      case (Inr h)
      show ?thesis
      proof (cases "file_size fl \<le> c")
        case small: True
        show ?thesis
          using True Inr small
          by (cases "fst (finalizeHash P (updateHash h (bytes fl)))") (simp_all add: eq)
      next
        case False
        then have "0 < file_size fl" by simp
        from processChunk_settles [OF c this, of P S alg h 0]
        show ?thesis using True Inr False by (simp add: eq)
      qed
    qed
  qed
qed

lemma calculateMultipleHashes_settles:
  assumes "0 < (case opt_chunkSize options of None \<Rightarrow> chunkSize S | Some n \<Rightarrow> n)"
  shows "\<exists>report evs. calculateMultipleHashes P S fl algs options = Some (report, evs)"
proof -
  have "list_all (\<lambda>alg. calculateHash P S fl alg options \<noteq> None) algs"
    using calculateHash_settles [OF assms] by (simp add: list_all_iff)
  from hashes_loop_settles [OF this, of algs "[]"]
  show ?thesis
    by (auto simp add: calculateMultipleHashes_def)
qed

section \<open>Progress of every traversal\<close>

text \<open>Whatever its outcome, a traversal delivers strictly increasing processed values
  that do not exceed the size of the file.\<close>

lemma progress_rising_cons:
  "progress_rising mid hi ps \<Longrightarrow> lo < mid \<Longrightarrow> mid \<le> hi \<Longrightarrow> progress_rising lo hi (mid # ps)"
  by (auto simp add: progress_rising_def list_all_iff)

lemma processChunk_rising:
  "processChunk P S fl alg c h offset processed = Some (r, evs) \<Longrightarrow>
   offset < file_size fl \<Longrightarrow>
   progress_rising processed (processed + (file_size fl - offset)) (progress_values evs)"
proof (induction "file_size fl - offset" arbitrary: h offset processed evs rule: less_induct)
  case less
  define chunk where "chunk = take c (drop offset (bytes fl))"
  define n where "n = length chunk"
  have nle: "n \<le> file_size fl - offset"
    by (simp add: n_def chunk_def file_size_def)
  note eq = less.prems(1) [unfolded processChunk.simps [of P S fl alg c h offset processed],
      folded chunk_def, unfolded Let_def, folded n_def]
  show ?case
  proof (cases "read_ok fl offset")
    case False
    then have "evs = [Read offset n]" using eq by auto
    then show ?thesis by (simp add: progress_rising_def)
  next
    case ok: True
    show ?thesis
    proof (cases "offset + n < file_size fl")
      case True
      have ne: "chunk \<noteq> []" using eq ok True by (auto split: if_splits)
      then have npos: "0 < n" by (simp add: n_def)
      obtain es where rec: "processChunk P S fl alg c (updateHash h chunk) (offset + n)
            (processed + n) = Some (r, es)"
        and evs: "evs = [Read offset n, Update alg n, Progress (processed + n) (file_size fl)] @ es"
        using eq ok True ne by (auto split: if_splits)
      have "progress_rising (processed + n) (processed + n + (file_size fl - (offset + n)))
          (progress_values es)"
        using less.hyps [OF _ rec True] npos True by simp
      moreover have "processed + n + (file_size fl - (offset + n))
          = processed + (file_size fl - offset)"
        using True by simp
      ultimately have "progress_rising processed (processed + (file_size fl - offset))
          ((processed + n) # progress_values es)"
        using npos True by (intro progress_rising_cons) auto
      then show ?thesis by (simp add: evs)
    next
      case False
      then have n: "n = file_size fl - offset" using nle by simp
      have "evs = [Read offset n, Update alg n, Progress (processed + n) (file_size fl)]"
        using eq ok False by (auto split: if_splits sum.splits)
      then show ?thesis
        using less.prems(2) by (simp add: n progress_rising_def)
    qed
  qed
qed

lemma readNextChunk_rising:
  "readNextChunk fl c chunks offset = Some (r, evs) \<Longrightarrow>
   offset < file_size fl \<Longrightarrow>
   progress_rising offset (file_size fl) (progress_values evs)"
proof (induction "file_size fl - offset" arbitrary: chunks offset evs rule: less_induct)
  case less
  define chunk where "chunk = take c (drop offset (bytes fl))"
  define n where "n = length chunk"
  have nle: "n \<le> file_size fl - offset"
    by (simp add: n_def chunk_def file_size_def)
  note eq = less.prems(1) [unfolded readNextChunk.simps [of fl c chunks offset],
      folded chunk_def, unfolded Let_def, folded n_def]
  show ?case
  proof (cases "read_ok fl offset")
    case False
    then have "evs = [Read offset n]" using eq by auto
    then show ?thesis by (simp add: progress_rising_def)
  next
    case ok: True
    show ?thesis
    proof (cases "offset + n < file_size fl")
      case True
      have ne: "chunk \<noteq> []" using eq ok True by (auto split: if_splits)
      then have npos: "0 < n" by (simp add: n_def)
      obtain es where rec: "readNextChunk fl c (chunks @ [chunk]) (offset + n) = Some (r, es)"
        and evs: "evs = [Read offset n, Progress (offset + n) (file_size fl)] @ es"
        using eq ok True ne by (auto split: if_splits)
      have "progress_rising (offset + n) (file_size fl) (progress_values es)"
        using less.hyps [OF _ rec True] npos True by simp
      then have "progress_rising offset (file_size fl) ((offset + n) # progress_values es)"
        using npos True by (intro progress_rising_cons) auto
      then show ?thesis by (simp add: evs)
    next
      case False
      then have n: "offset + n = file_size fl" using nle less.prems(2) by simp
      have "evs = [Read offset n, Progress (offset + n) (file_size fl)]"
        using eq ok False by (auto split: if_splits)
      then show ?thesis
        using less.prems(2) by (simp add: n progress_rising_def)
    qed
  qed
qed

lemma progress_rising_bounded:
  "progress_rising lo hi ps \<Longrightarrow>
   sorted ps \<and> distinct ps \<and> list_all (\<lambda>p. p \<le> hi) ps"
  by (auto simp add: progress_rising_def list_all_iff strict_sorted_iff)

lemma readFileAsArrayBuffer_rising:
  assumes "readFileAsArrayBuffer fl c = Some (r, evs)"
  shows "sorted (progress_values evs) \<and> distinct (progress_values evs)
       \<and> list_all (\<lambda>p. p \<le> file_size fl) (progress_values evs)"
proof (cases "file_size fl \<le> c")
  case True
  then have "evs = [Read 0 (file_size fl)]
      \<or> evs = [Read 0 (file_size fl), Progress (file_size fl) (file_size fl)]"
    using assms by (cases "read_ok fl 0") (auto simp add: readFileAsArrayBuffer_def)
  then show ?thesis by auto
next
  case False
  then have "readNextChunk fl c [] 0 = Some (r, evs)" "0 < file_size fl"
    using assms by (simp_all add: readFileAsArrayBuffer_def)
  from readNextChunk_rising [OF this] show ?thesis
    using progress_rising_bounded by blast
qed

lemma calculateHMAC_events:
  assumes "calculateHMAC P S fl alg key c = Some (r, evs)"
  shows "evs = [] \<or> (\<exists>rr. readFileAsArrayBuffer fl c = Some (rr, evs))"
proof -
  note eq = assms [unfolded calculateHMAC_def Let_def]
  show ?thesis
  proof (cases "hmac_cryptoAlgoMap alg")
    case None
    then show ?thesis using eq by simp
  next
    case (Some cryptoAlgo)
    note a = Some
    show ?thesis
    proof (cases "subtle_importKey P cryptoAlgo
        (TextEncoder_encode (case key of None \<Rightarrow> [] | Some k \<Rightarrow> k))")
      case (Inl msg)
      then show ?thesis using eq a by simp
    next
      case (Inr k)
      note k = Inr
      show ?thesis
      proof (cases "readFileAsArrayBuffer fl c")
        case None
        then show ?thesis using eq a k by simp
      next
        case (Some p)
        obtain rr es where p: "p = (rr, es)" by (cases p)
        have "es = evs"
          using eq a k Some p
          by (cases rr; cases "subtle_sign P k (projr rr)") (auto split: sum.splits)
        then show ?thesis using Some p by simp
      qed
    qed
  qed
qed

lemma calculateHash_rising:
  assumes "calculateHash P S fl alg options = Some (r, evs)"
  shows "sorted (progress_values evs) \<and> distinct (progress_values evs)
       \<and> list_all (\<lambda>p. p \<le> file_size fl) (progress_values evs)"
proof -
  define c where "c = (case opt_chunkSize options of None \<Rightarrow> chunkSize S | Some n \<Rightarrow> n)"
  define hm where "hm \<longleftrightarrow> take 5 alg = ''hmac-''"
  define sup where "sup \<longleftrightarrow> isAlgorithmSupported alg"
  note eq = assms [unfolded calculateHash_unfold, folded c_def hm_def sup_def]
  show ?thesis
  proof (cases sup)
    case False
    then show ?thesis using eq by auto
  next
    case sup: True
    show ?thesis
    proof (cases hm)
      case True
      then have "calculateHMAC P S fl (drop 5 alg) (hmacKey options) c = Some (r, evs)"
        using eq sup by simp
      from calculateHMAC_events [OF this] show ?thesis
        using readFileAsArrayBuffer_rising by auto
    next
      case nh: False
      show ?thesis
      proof (cases "createHashInstance P alg")
        case (Inl e)
        then show ?thesis using eq sup nh by auto
      next
        case (Inr h)
        show ?thesis
        proof (cases "file_size fl \<le> c")
          case True
          then show ?thesis
            using eq sup nh Inr
            by (cases "read_ok fl 0"; cases "fst (finalizeHash P (updateHash h (bytes fl)))")
              auto
        next
          case False
          then have "processChunk P S fl alg c h 0 0 = Some (r, evs)" "0 < file_size fl"
            using eq sup nh Inr by simp_all
          from processChunk_rising [OF this] show ?thesis
            using progress_rising_bounded [of 0 "file_size fl" "progress_values evs"] by simp
        qed
      qed
    qed
  qed
qed

lemma progress_when_resolved:
  assumes "calculateHash P S fl alg options = Some (Inr res, evs)"
  shows "progress_values evs \<noteq> [] \<and> last (progress_values evs) = file_size fl
       \<and> length (filter (\<lambda>p. p = file_size fl) (progress_values evs)) = 1"
proof -
  define c where "c = (case opt_chunkSize options of None \<Rightarrow> chunkSize S | Some n \<Rightarrow> n)"
  define hm where "hm \<longleftrightarrow> take 5 alg = ''hmac-''"
  define sup where "sup \<longleftrightarrow> isAlgorithmSupported alg"
  note eq = assms [unfolded calculateHash_unfold, folded c_def hm_def sup_def]
  have sup: sup using eq by (cases sup) simp_all
  have "progress_values evs = [file_size fl]
      \<or> progress_ok 0 (file_size fl) (progress_values evs)"
  proof (cases hm)
    case True
    then have "calculateHMAC P S fl (drop 5 alg) (hmacKey options) c = Some (Inr res, evs)"
      using eq sup by simp
    then show ?thesis
      using calculateHMAC_resolved readFileAsArrayBuffer_progress by blast
  next
    case False
    note nh = False
    show ?thesis
    proof (cases "createHashInstance P alg")
      case (Inl e)
      then show ?thesis using eq sup nh by simp
    next
      case (Inr h)
      show ?thesis
      proof (cases "file_size fl \<le> c")
        case True
        have ok: "read_ok fl 0"
          using eq sup nh Inr True by (cases "read_ok fl 0") simp_all
        have "evs = [Read 0 (file_size fl), Update alg (file_size fl),
                     Progress (file_size fl) (file_size fl)]"
          using eq sup nh Inr True ok
          by (cases "fst (finalizeHash P (updateHash h (bytes fl)))") simp_all
        then show ?thesis by simp
      next
        case False
        then have "processChunk P S fl alg c h 0 0 = Some (Inr res, evs)" "0 < file_size fl"
          using eq sup nh Inr by simp_all
        then show ?thesis
          using processChunk_progress [of P S fl alg c h 0 0 res evs] by simp
      qed
    qed
  qed
  then show ?thesis
    using progress_ok_once [of 0 "file_size fl" "progress_values evs"] by auto
qed

text \<open>The accumulator updates of the computation of an algorithm are those of its own
  accumulator.\<close>

lemma feeds_only_simps [simp]:
  "feeds_only alg (Read a b) = True"
  "feeds_only alg (Update s n) = (s = alg)"
  "feeds_only alg (Progress p t) = True"
  by (simp_all add: feeds_only_def)

lemma processChunk_feeds:
  "processChunk P S fl alg c h offset processed = Some (r, evs) \<Longrightarrow>
   list_all (feeds_only alg) evs"
proof (induction "file_size fl - offset" arbitrary: h offset processed evs rule: less_induct)
  case less
  define chunk where "chunk = take c (drop offset (bytes fl))"
  define n where "n = length chunk"
  note eq = less.prems(1) [unfolded processChunk.simps [of P S fl alg c h offset processed],
      folded chunk_def, unfolded Let_def, folded n_def]
  show ?case
  proof (cases "read_ok fl offset")
    case False
    then show ?thesis using eq by auto
  next
    case ok: True
    show ?thesis
    proof (cases "offset + n < file_size fl")
      case True
      have ne: "chunk \<noteq> []" using eq ok True by (auto split: if_splits)
      then have npos: "0 < n" by (simp add: n_def)
      obtain es where rec: "processChunk P S fl alg c (updateHash h chunk) (offset + n)
            (processed + n) = Some (r, es)"
        and evs: "evs = [Read offset n, Update alg n, Progress (processed + n) (file_size fl)] @ es"
        using eq ok True ne by (auto split: if_splits)
      have "list_all (feeds_only alg) es"
        using less.hyps [OF _ rec] npos True by simp
      then show ?thesis by (simp add: evs)
    next
      case False
      have "evs = [Read offset n, Update alg n, Progress (processed + n) (file_size fl)]"
        using eq ok False by (auto split: if_splits sum.splits)
      then show ?thesis by simp
    qed
  qed
qed

lemma readNextChunk_feeds:
  "readNextChunk fl c chunks offset = Some (r, evs) \<Longrightarrow> list_all (feeds_only alg) evs"
proof (induction "file_size fl - offset" arbitrary: chunks offset evs rule: less_induct)
  case less
  define chunk where "chunk = take c (drop offset (bytes fl))"
  define n where "n = length chunk"
  note eq = less.prems(1) [unfolded readNextChunk.simps [of fl c chunks offset],
      folded chunk_def, unfolded Let_def, folded n_def]
  show ?case
  proof (cases "read_ok fl offset")
    case False
    then show ?thesis using eq by auto
  next
    case ok: True
    show ?thesis
    proof (cases "offset + n < file_size fl")
      case True
      have ne: "chunk \<noteq> []" using eq ok True by (auto split: if_splits)
      then have npos: "0 < n" by (simp add: n_def)
      obtain es where rec: "readNextChunk fl c (chunks @ [chunk]) (offset + n) = Some (r, es)"
        and evs: "evs = [Read offset n, Progress (offset + n) (file_size fl)] @ es"
        using eq ok True ne by (auto split: if_splits)
      have "list_all (feeds_only alg) es"
        using less.hyps [OF _ rec] npos True by simp
      then show ?thesis by (simp add: evs)
    next
      case False
      have "evs = [Read offset n, Progress (offset + n) (file_size fl)]"
        using eq ok False by (auto split: if_splits)
      then show ?thesis by simp
    qed
  qed
qed

lemma readFileAsArrayBuffer_feeds:
  "readFileAsArrayBuffer fl c = Some (r, evs) \<Longrightarrow> list_all (feeds_only alg) evs"
  using readNextChunk_feeds [of fl c "[]" 0 r evs alg]
  by (auto simp add: readFileAsArrayBuffer_def split: if_splits)

lemma calculateHash_feeds:
  assumes "calculateHash P S fl alg options = Some (r, evs)"
  shows "list_all (feeds_only alg) evs"
proof -
  define c where "c = (case opt_chunkSize options of None \<Rightarrow> chunkSize S | Some n \<Rightarrow> n)"
  define hm where "hm \<longleftrightarrow> take 5 alg = ''hmac-''"
  define sup where "sup \<longleftrightarrow> isAlgorithmSupported alg"
  note eq = assms [unfolded calculateHash_unfold, folded c_def hm_def sup_def]
  show ?thesis
  proof (cases sup)
    case False
    then show ?thesis using eq by auto
  next
    case sup: True
    show ?thesis
    proof (cases hm)
      case True
      then have "calculateHMAC P S fl (drop 5 alg) (hmacKey options) c = Some (r, evs)"
        using eq sup by simp
      from calculateHMAC_events [OF this] show ?thesis
        using readFileAsArrayBuffer_feeds by auto
    next
      case nh: False
      show ?thesis
      proof (cases "createHashInstance P alg")
        case (Inl e)
        then show ?thesis using eq sup nh by auto
      next
        case (Inr h)
        show ?thesis
        proof (cases "file_size fl \<le> c")
          case True
          then show ?thesis
            using eq sup nh Inr
            by (cases "read_ok fl 0"; cases "fst (finalizeHash P (updateHash h (bytes fl)))")
              auto
        next
          case False
          then have "processChunk P S fl alg c h 0 0 = Some (r, evs)"
            using eq sup nh Inr by simp
          from processChunk_feeds [OF this] show ?thesis .
        qed
      qed
    qed
  qed
qed


section \<open>The digest of the whole input\<close>

text \<open>When every read succeeds and the chunk size is positive and below \<open>2 ^ 28\<close> bytes,
  the accumulator of an algorithm has been fed the bytes of the file up to the offset
  reached, whatever the chunk boundaries, so the value finalized is the digest of the
  whole file: the MD5 of its bytes, or the answer of the platform for all of its bytes.
  The bound keeps \<open>data.length << 3\<close> exact in each update.\<close>

lemma accumulated_md5Update:
  assumes "accumulated (Js ''MD5'' st) data" and "length ch < 268435456"
  shows "accumulated (Js ''MD5'' (md5Update st ch)) (data @ ch)"
proof -
  have len: "length (buffer st) = 64"
    and st: "state st = fst (md5_absorb (state md5Init) data)"
    and pe: "pending st = snd (md5_absorb (state md5Init) data)"
    and cn: "count st = 8 * int (length data)"
    using assms(1) by simp_all
  note u = md5Update_absorb [OF len, of ch]
  have ab: "md5_absorb (state st) (pending st @ ch) = md5_absorb (state md5Init) (data @ ch)"
    unfolding st pe by (rule absorb_append [symmetric])
  have "0 \<le> 8 * int (length ch)" "8 * int (length ch) < 2 ^ 31"
    using assms(2) by simp_all
  then have "signed_take_bit 31 (8 * int (length ch)) = 8 * int (length ch)"
    by (simp only: signed_take_bit_int_eq_self)
  then have sh: "js_shl (int (length ch)) 3 = 8 * int (length ch)"
    by (simp add: js_shl3)
  show ?thesis
    using u by (simp add: ab sh cn)
qed

lemma accumulated_update:
  "accumulated h data \<Longrightarrow> length ch < 268435456 \<Longrightarrow>
   accumulated (updateHash h ch) (data @ ch)"
proof (cases h)
  case (Crypto cryptoAlgo buf)
  assume "accumulated h data"
  then show ?thesis using Crypto by (cases buf) simp_all
next
  case (Js a st)
  assume a: "accumulated h data" and l: "length ch < 268435456"
  then have m: "a = ''MD5''" using Js by simp
  show ?thesis
    using accumulated_md5Update [of st data ch] a l Js m
    by (simp del: accumulated.simps)
qed

lemma digest_of_update: "digest_of P (updateHash h ch) data = digest_of P h data"
  by (cases "(h, ch)" rule: updateHash.cases) simp_all

lemma md5Final_accumulated:
  assumes "accumulated (Js ''MD5'' st) data"
  shows "fst (md5Final st) = md5_of_message data"
proof -
  have len: "length (buffer st) = 64"
    and st: "state st = fst (md5_absorb (state md5Init) data)"
    and pe: "pending st = snd (md5_absorb (state md5Init) data)"
    and cn: "count st = 8 * int (length data)"
    using assms by simp_all
  have pl: "length (pending st) = length data mod 64"
    unfolding pe by (rule absorb_length)
  show ?thesis
    unfolding md5Final_absorb [OF len] pl cn md5_of_message_def
    by (simp only: st pe absorb_append [symmetric])
qed

lemma finalize_update:
  assumes "accumulated h data" and "length ch < 268435456"
  shows "fst (finalizeHash P (updateHash h ch)) = digest_of P h (data @ ch)"
proof (cases h)
  case (Crypto cryptoAlgo buf)
  then show ?thesis using assms(1) by (cases buf) (simp_all split: sum.splits)
next
  case (Js a st)
  then have m: "a = ''MD5''" using assms(1) by simp
  have "accumulated (Js ''MD5'' (md5Update st ch)) (data @ ch)"
    using accumulated_md5Update assms Js m by simp
  from md5Final_accumulated [OF this] show ?thesis
    using Js m by (simp add: case_prod_beta)
qed

lemma processChunk_digest:
  assumes reads: "\<forall>offset. read_ok fl offset" and c: "0 < c" "c < 268435456"
  shows "offset < file_size fl \<Longrightarrow> accumulated h (take offset (bytes fl)) \<Longrightarrow>
   \<exists>evs. processChunk P S fl alg c h offset processed
     = Some ((case digest_of P h (bytes fl) of
                Inl e \<Rightarrow> Inl e
              | Inr d \<Rightarrow> Inr \<lparr>algorithm = alg, hash = bufferToHex d (resultFormat S)\<rparr>), evs)"
proof (induction "file_size fl - offset" arbitrary: h offset processed rule: less_induct)
  case less
  define chunk where "chunk = take c (drop offset (bytes fl))"
  define n where "n = length chunk"
  have npos: "0 < n"
    using less.prems c by (simp add: n_def chunk_def file_size_def)
  then have ne: "chunk \<noteq> []" by (auto simp add: n_def)
  have nc: "n < 268435456" using c by (simp add: n_def chunk_def)
  have tk: "take offset (bytes fl) @ chunk = take (offset + n) (bytes fl)"
    unfolding chunk_def n_def
    by (simp add: take_add min_def)
  have ok: "read_ok fl offset" using reads by simp
  note eq = processChunk.simps [of P S fl alg c h offset processed,
      folded chunk_def, unfolded Let_def, folded n_def]
  note acc = accumulated_update [OF less.prems(2), of chunk, folded n_def, OF nc, unfolded tk]
  show ?case
  proof (cases "offset + n < file_size fl")
    case True
    have "file_size fl - (offset + n) < file_size fl - offset"
      using npos True by simp
    from less.hyps [OF this True acc, of "processed + n"]
    obtain es where "processChunk P S fl alg c (updateHash h chunk) (offset + n)
          (processed + n)
        = Some ((case digest_of P h (bytes fl) of
                   Inl e \<Rightarrow> Inl e
                 | Inr d \<Rightarrow> Inr \<lparr>algorithm = alg, hash = bufferToHex d (resultFormat S)\<rparr>), es)"
      by (auto simp add: digest_of_update)
    then show ?thesis using ok True ne by (simp add: eq)
  next
    case False
    then have "take (offset + n) (bytes fl) = bytes fl"
      by (simp add: file_size_def)
    then have "fst (finalizeHash P (updateHash h chunk)) = digest_of P h (bytes fl)"
      using finalize_update [OF less.prems(2), of chunk P, folded n_def, OF nc] tk by simp
    then show ?thesis using ok False
      by (cases "digest_of P h (bytes fl)") (simp_all add: eq)
  qed
qed

lemma readNextChunk_content:
  assumes reads: "\<forall>offset. read_ok fl offset" and c: "0 < c"
  shows "offset < file_size fl \<Longrightarrow> concat chunks = take offset (bytes fl) \<Longrightarrow>
   \<exists>evs. readNextChunk fl c chunks offset = Some (Inr (bytes fl), evs)"
proof (induction "file_size fl - offset" arbitrary: chunks offset rule: less_induct)
  case less
  define chunk where "chunk = take c (drop offset (bytes fl))"
  define n where "n = length chunk"
  have npos: "0 < n"
    using less.prems c by (simp add: n_def chunk_def file_size_def)
  then have ne: "chunk \<noteq> []" by (auto simp add: n_def)
  have tk: "take offset (bytes fl) @ chunk = take (offset + n) (bytes fl)"
    unfolding chunk_def n_def
    by (simp add: take_add min_def)
  have ok: "read_ok fl offset" using reads by simp
  note eq = readNextChunk.simps [of fl c chunks offset,
      folded chunk_def, unfolded Let_def, folded n_def]
  have acc: "concat (chunks @ [chunk]) = take (offset + n) (bytes fl)"
    using less.prems(2) tk by simp
  show ?case
  proof (cases "offset + n < file_size fl")
    case True
    have "file_size fl - (offset + n) < file_size fl - offset"
      using npos True by simp
    from less.hyps [OF this True acc]
    obtain es where "readNextChunk fl c (chunks @ [chunk]) (offset + n)
        = Some (Inr (bytes fl), es)"
      by blast
    then show ?thesis using ok True ne by (simp add: eq)
  next
    case False
    then have "take (offset + n) (bytes fl) = bytes fl"
      by (simp add: file_size_def)
    then show ?thesis using ok False acc by (simp add: eq)
  qed
qed

lemma accumulated_md5Init: "accumulated (Js ''MD5'' md5Init) []"
  using md5Init_pending by (simp add: md5Init_buffer absorb_short md5Init_def)

lemma createHashInstance_fresh:
  "createHashInstance P alg = Inr h \<Longrightarrow> accumulated h []"
  using accumulated_md5Init
  by (auto simp add: createHashInstance_def createJsHashInstance_def
      simp del: accumulated.simps(2) split: if_splits option.splits)

lemma readFileAsArrayBuffer_content:
  assumes "\<forall>offset. read_ok fl offset" and "0 < c"
  shows "\<exists>evs. readFileAsArrayBuffer fl c = Some (Inr (bytes fl), evs)"
proof (cases "file_size fl \<le> c")
  case True
  then show ?thesis using assms(1) by (simp add: readFileAsArrayBuffer_def)
next
  case False
  then have "0 < file_size fl" by simp
  from readNextChunk_content [OF assms this, of "[]"] show ?thesis
    using False by (simp add: readFileAsArrayBuffer_def)
qed

lemma calculateHash_slot:
  assumes reads: "\<forall>offset. read_ok fl offset"
    and c0: "0 < (case opt_chunkSize options of None \<Rightarrow> chunkSize S | Some n \<Rightarrow> n)"
    and c1: "(case opt_chunkSize options of None \<Rightarrow> chunkSize S | Some n \<Rightarrow> n) < 268435456"
  shows "\<exists>r evs. calculateHash P S fl alg options = Some (r, evs)
           \<and> result_slot r = slot_of_input P S fl options alg"
proof -
  define c where "c = (case opt_chunkSize options of None \<Rightarrow> chunkSize S | Some n \<Rightarrow> n)"
  define hm where "hm \<longleftrightarrow> take 5 alg = ''hmac-''"
  define sup where "sup \<longleftrightarrow> isAlgorithmSupported alg"
  have c: "0 < c" "c < 268435456" using c0 c1 by (simp_all add: c_def)
  note eq = calculateHash_unfold [of P S fl alg options, folded c_def hm_def sup_def]
  note sl = slot_of_input_def [of P S fl options alg, folded hm_def sup_def]
  show ?thesis
  proof (cases sup)
    case False
    then show ?thesis by (simp add: eq sl result_slot_def)
  next
    case sup: True
    show ?thesis
    proof (cases hm)
      case True
      obtain es where rd: "readFileAsArrayBuffer fl c = Some (Inr (bytes fl), es)"
        using readFileAsArrayBuffer_content [OF reads c(1)] by blast
      show ?thesis
        using sup True
        by (simp add: eq sl result_slot_def calculateHMAC_def Let_def rd
            split: option.splits sum.splits)
    next
      case nh: False
      show ?thesis
      proof (cases "createHashInstance P alg")
        case (Inl e)
        then show ?thesis using sup nh by (simp add: eq sl result_slot_def)
      next
        case (Inr h)
        note fresh = createHashInstance_fresh [OF Inr]
        show ?thesis
        proof (cases "file_size fl \<le> c")
          case True
          then have "length (bytes fl) < 268435456" using c by (simp add: file_size_def)
          from finalize_update [OF fresh this, of P]
          have "fst (finalizeHash P (updateHash h (bytes fl))) = digest_of P h (bytes fl)"
            by simp
          then show ?thesis
            using sup nh Inr True reads
            by (cases "digest_of P h (bytes fl)") (simp_all add: eq sl result_slot_def)
        next
          case False
          then have "0 < file_size fl" by simp
          from processChunk_digest [OF reads c this, of h P S alg 0] fresh
          obtain es where "processChunk P S fl alg c h 0 0
            = Some ((case digest_of P h (bytes fl) of
                Inl e \<Rightarrow> Inl e
              | Inr d \<Rightarrow> Inr \<lparr>algorithm = alg, hash = bufferToHex d (resultFormat S)\<rparr>), es)"
            by auto
          then show ?thesis
            using sup nh Inr False
            by (cases "digest_of P h (bytes fl)") (simp_all add: eq sl result_slot_def)
        qed
      qed
    qed
  qed
qed

lemma algorithm_isolation_below_256MiB:
  assumes reads: "\<forall>offset. read_ok fl offset"
    and c0: "0 < (case opt_chunkSize options of None \<Rightarrow> chunkSize S | Some n \<Rightarrow> n)"
    and c1: "(case opt_chunkSize options of None \<Rightarrow> chunkSize S | Some n \<Rightarrow> n) < 268435456"
  shows "\<exists>report evs. calculateMultipleHashes P S fl algs options = Some (report, evs)
           \<and> (\<forall>alg\<in>set algs. alg \<noteq> ''__proto__'' \<longrightarrow>
                 obj_get (hashValues report) alg = Some (slot_of_input P S fl options alg))"
proof -
  obtain report evs where m: "calculateMultipleHashes P S fl algs options = Some (report, evs)"
    using calculateMultipleHashes_settles [OF c0] by blast
  then obtain res where l: "hashes_loop P S fl algs options algs [] = Some (res, evs)"
    and rep: "hashValues report = res"
    by (auto simp add: calculateMultipleHashes_def)
  note h = hashes_loop_Some [OF l]
  have "obj_get res alg = Some (slot_of_input P S fl options alg)"
    if a: "alg \<in> set algs" "alg \<noteq> ''__proto__''" for alg
  proof -
    obtain r es where c: "calculateHash P S fl alg options = Some (r, es)"
      and s: "result_slot r = slot_of_input P S fl options alg"
      using calculateHash_slot [OF reads c0 c1] by blast
    show ?thesis
      using h a obj_get_foldl_set [of alg algs
          "\<lambda>alg. case calculateHash P S fl alg options of None \<Rightarrow> [] | Some (r, es) \<Rightarrow> result_slot r"
          "[]"]
      by (simp add: c s)
  qed
  then show ?thesis using m rep by auto
qed

text \<open>Runs on the three-byte file with four algorithms, and on the file of \<open>2 ^ 29\<close>
  zero bytes read in one piece.\<close>

lemma four_algorithms_run:
  "calculateMultipleHashes plain_crypto two_byte_chunks three_bytes
     [''md5'', ''hmac-sha256'', ''hmac-md5'', ''sha1''] key_options
   = Some (\<lparr>filename = ''three.bin'', size_bytes = 3,
            hashValues = [(''md5'', ''5289df737df57326fcdd22597afb1fac''),
                          (''hmac-sha256'', ''6b6579010203''),
                          (''hmac-md5'', failure_prefix @ ''NotSupportedError''),
                          (''sha1'', ''010203'')]\<rparr>,
           [Read 0 2, Update ''md5'' 2, Progress 2 3, Read 2 1, Update ''md5'' 1,
            Progress 3 3, Read 0 2, Read 2 1, Read 0 2, Update ''sha1'' 2, Read 2 1,
            Update ''sha1'' 1])"
  by code_simp

lemma hmac_sha256_alone_run:
  "calculateHash plain_crypto two_byte_chunks three_bytes ''hmac-sha256'' key_options
   = Some (Inr \<lparr>algorithm = ''hmac-sha256'', hash = ''6b6579010203''\<rparr>,
           [Read 0 2, Progress 2 3, Read 2 1, Progress 3 3])"
  by code_simp

lemma algorithm_isolation_example:
  "calculateMultipleHashes plain_crypto two_byte_chunks three_bytes
     [''md5'', ''hmac-sha256'', ''hmac-md5'', ''sha1''] key_options
   = Some (\<lparr>filename = ''three.bin'', size_bytes = 3,
            hashValues = [(''md5'', ''5289df737df57326fcdd22597afb1fac''),
                          (''hmac-sha256'', ''6b6579010203''),
                          (''hmac-md5'', failure_prefix @ ''NotSupportedError''),
                          (''sha1'', ''010203'')]\<rparr>,
           [Read 0 2, Update ''md5'' 2, Progress 2 3, Read 2 1, Update ''md5'' 1,
            Progress 3 3, Read 0 2, Read 2 1, Read 0 2, Update ''sha1'' 2, Read 2 1,
            Update ''sha1'' 1])
   \<and> slot_of_input plain_crypto two_byte_chunks three_bytes key_options ''sha1'' = ''010203''
   \<and> slot_of_input plain_crypto two_byte_chunks three_bytes key_options ''hmac-md5''
       = failure_prefix @ ''NotSupportedError''
   \<and> slot_of_input plain_crypto two_byte_chunks three_bytes key_options ''md5''
       = ''5289df737df57326fcdd22597afb1fac''
   \<and> bufferToHex (md5_of_message [1, 2, 3]) ''lowercase'' = ''5289df737df57326fcdd22597afb1fac''"
proof -
  have c: "0 < (case opt_chunkSize key_options of None \<Rightarrow> chunkSize two_byte_chunks
                | Some n \<Rightarrow> n)"
    "(case opt_chunkSize key_options of None \<Rightarrow> chunkSize two_byte_chunks
                | Some n \<Rightarrow> n) < 268435456"
    by (simp_all add: key_options_def two_byte_chunks_def)
  have r: "\<forall>offset. read_ok three_bytes offset" by (simp add: three_bytes_def)
  have s: "slot_of_input plain_crypto two_byte_chunks three_bytes key_options ''md5''
      = bufferToHex (md5_of_message [1, 2, 3]) ''lowercase''"
    by (simp add: slot_of_input_def isAlgorithmSupported_def createHashInstance_def
        plain_crypto_def web_crypto_def hash_cryptoAlgoMap_def createJsHashInstance_def
        three_bytes_def two_byte_chunks_def)
  show ?thesis
    using algorithm_isolation_below_256MiB [OF r c, of plain_crypto
        "[''md5'', ''hmac-sha256'', ''hmac-md5'', ''sha1'']"] s
    unfolding four_algorithms_run
    by (auto simp add: obj_get_def)
qed

lemma calculateHash_one_piece:
  assumes "isAlgorithmSupported alg" and "take 5 alg \<noteq> ''hmac-''"
    and "createHashInstance P alg = Inr h"
    and "file_size fl \<le> (case opt_chunkSize options of None \<Rightarrow> chunkSize S | Some n \<Rightarrow> n)"
    and "read_ok fl 0"
  shows "calculateHash P S fl alg options =
     (case fst (finalizeHash P (updateHash h (bytes fl))) of
        Inl e \<Rightarrow> Some (Inl e, [Read 0 (file_size fl), Update alg (file_size fl)])
      | Inr d \<Rightarrow>
          Some (Inr \<lparr>algorithm = alg, hash = bufferToHex d (resultFormat S)\<rparr>,
                [Read 0 (file_size fl), Update alg (file_size fl),
                 Progress (file_size fl) (file_size fl)]))"
  using assms by (simp add: calculateHash_unfold)

lemma md5_one_update_zero_count:
  "fst (md5Final (md5Update md5Init (replicate 536870912 0)))
     = md5_result (fst (md5_absorb (state md5Init)
         (replicate 536870912 0 @ 0x80 # replicate 55 0 @ [0, 0, 0, 0, 0, 0, 0, 0])))"
proof -
  have s2: "js_shl 536870912 3 = 0" by code_simp
  have l2: "lengthBytes 0 = [0, 0, 0, 0, 0, 0, 0, 0]" by code_simp
  have m: "(536870912::nat) mod 64 = 0" by simp
  have p2: "md5_padding 0 0 = 0x80 # replicate 55 0 @ [0, 0, 0, 0, 0, 0, 0, 0]"
    by (simp only: md5_padding_def l2) simp
  show ?thesis
    by (simp only: md5_digest_one length_replicate of_nat_numeral m s2 p2)
qed

lemma md5_of_zeros_512MiB:
  "md5_of_message (replicate 536870912 0)
     = md5_result (fst (md5_absorb (state md5Init)
         (replicate 536870912 0 @ 0x80 # replicate 55 0 @ [0, 0, 0, 0, 1, 0, 0, 0])))"
proof -
  have l1: "lengthBytes 4294967296 = [0, 0, 0, 0, 1, 0, 0, 0]" by code_simp
  have m: "(536870912::nat) mod 64 = 0" by simp
  have e: "8 * int 536870912 = 4294967296" by simp
  have p1: "md5_padding 0 4294967296 = 0x80 # replicate 55 0 @ [0, 0, 0, 0, 1, 0, 0, 0]"
    by (simp only: md5_padding_def l1) simp
  show ?thesis
    by (simp only: md5_of_message_def length_replicate m e p1)
qed

lemma zeros_512MiB_sha256:
  "calculateHash broken_crypto chunks_512MiB zeros_512MiB ''sha256'' no_options
   = Some (Inl (PlatformError ''OperationError''),
           [Read 0 536870912, Update ''sha256'' 536870912])"
proof -
  have i: "createHashInstance broken_crypto ''sha256'' = Inr (Crypto ''SHA-256'' None)"
    by (simp add: createHashInstance_def hash_cryptoAlgoMap_def broken_crypto_def)
  have s: "file_size zeros_512MiB = 536870912"
    by (simp add: file_size_def zeros_512MiB_def)
  have f: "fst (finalizeHash broken_crypto (updateHash (Crypto ''SHA-256'' None) (bytes zeros_512MiB)))
      = Inl (PlatformError ''OperationError'')"
    by (simp add: broken_crypto_def)
  have c: "file_size zeros_512MiB
      \<le> (case opt_chunkSize no_options of None \<Rightarrow> chunkSize chunks_512MiB | Some n \<Rightarrow> n)"
    by (simp add: s no_options_def chunks_512MiB_def)
  have r: "read_ok zeros_512MiB 0" by (simp add: zeros_512MiB_def)
  have sup: "isAlgorithmSupported ''sha256''" by (simp add: isAlgorithmSupported_def)
  have nh: "take 5 ''sha256'' \<noteq> ''hmac-''" by simp
  show ?thesis
    unfolding calculateHash_one_piece [OF sup nh i c r] f
    by (simp add: s chunks_512MiB_def)
qed

lemma zeros_512MiB_md5:
  "calculateHash broken_crypto chunks_512MiB zeros_512MiB ''md5'' no_options
   = Some (Inr \<lparr>algorithm = ''md5'',
                hash = bufferToHex (fst (md5Final (md5Update md5Init (replicate 536870912 0))))
                         ''lowercase''\<rparr>,
           [Read 0 536870912, Update ''md5'' 536870912, Progress 536870912 536870912])"
proof -
  have i: "createHashInstance broken_crypto ''md5'' = Inr (Js ''MD5'' md5Init)"
    by (simp add: createHashInstance_def hash_cryptoAlgoMap_def broken_crypto_def
        createJsHashInstance_def)
  have s: "file_size zeros_512MiB = 536870912"
    by (simp add: file_size_def zeros_512MiB_def)
  have b: "bytes zeros_512MiB = replicate 536870912 0"
    by (simp add: zeros_512MiB_def)
  have f: "fst (finalizeHash broken_crypto (updateHash (Js ''MD5'' md5Init) (bytes zeros_512MiB)))
      = Inr (fst (md5Final (md5Update md5Init (replicate 536870912 0))))"
    unfolding b by (simp add: case_prod_beta)
  have c: "file_size zeros_512MiB
      \<le> (case opt_chunkSize no_options of None \<Rightarrow> chunkSize chunks_512MiB | Some n \<Rightarrow> n)"
    by (simp add: s no_options_def chunks_512MiB_def)
  have r: "read_ok zeros_512MiB 0" by (simp add: zeros_512MiB_def)
  have sup: "isAlgorithmSupported ''md5''" by (simp add: isAlgorithmSupported_def)
  have nh: "take 5 ''md5'' \<noteq> ''hmac-''" by simp
  show ?thesis
    unfolding calculateHash_one_piece [OF sup nh i c r] f
    by (simp add: s chunks_512MiB_def)
qed

section \<open>Known MD5 vectors\<close>

text \<open>
  Claim C1. With the lowercase result format, an accumulator made by \<open>md5Init\<close>, fed the
  empty byte sequence and finalized gives the hex digest
  \<open>d41d8cd98f00b204e9800998ecf8427e\<close>; fed the three ASCII bytes of "abc" it gives
  \<open>900150983cd24fb0d6963f7d28e17f72\<close>.
\<close>

theorem md5_known_vectors:
  "bufferToHex (fst (md5Final (md5Update md5Init []))) ''lowercase''
     = ''d41d8cd98f00b204e9800998ecf8427e''
   \<and> bufferToHex (fst (md5Final (md5Update md5Init [0x61, 0x62, 0x63]))) ''lowercase''
     = ''900150983cd24fb0d6963f7d28e17f72''"
  unfolding md5Final_def Let_def case_prod_beta by code_simp

section \<open>Chunk boundaries and the bit counter\<close>

text \<open>
  Claim C2. For every byte sequence and every way of splitting it into successive
  chunks, feeding the chunks to \<open>md5Update\<close> in order from the \<open>md5Init\<close> state and
  finalizing gives the same digest as one update with the whole sequence.

  \<open>md5_chunk_invariance_bounded\<close> above proves this for every sequence shorter than
  \<open>2 ^ 29\<close> bytes and every splitting. At \<open>2 ^ 29\<close> bytes it stops: \<open>md5Update\<close> adds
  \<open>data.length << 3\<close> to the counter, a 32-bit shift, so one update with \<open>2 ^ 29\<close> bytes
  adds 0. The theorem evaluates both runs on \<open>2 ^ 29\<close> zero bytes: fed as 8192 chunks of
  65536 bytes the digest is the block-wise pass over the message padded with the length
  field \<open>00 00 00 00 01 00 00 00\<close> (\<open>2 ^ 32\<close> bits); fed in one update it is the pass over
  the message padded with the length field \<open>00 00 00 00 00 00 00 00\<close>.
\<close>

theorem md5_one_update_512MiB:
  "concat (replicate 8192 (replicate 65536 (0::byte))) = replicate 536870912 0
   \<and> fst (md5Final (foldl md5Update md5Init (replicate 8192 (replicate 65536 0))))
       = md5_result (fst (md5_absorb (state md5Init)
           (replicate 536870912 0 @ 0x80 # replicate 55 0 @ [0, 0, 0, 0, 1, 0, 0, 0])))
   \<and> fst (md5Final (md5Update md5Init (replicate 536870912 0)))
       = md5_result (fst (md5_absorb (state md5Init)
           (replicate 536870912 0 @ 0x80 # replicate 55 0 @ [0, 0, 0, 0, 0, 0, 0, 0])))"
proof -
  have c: "concat (replicate 8192 (replicate 65536 (0::byte))) = replicate 536870912 0"
    by (simp add: concat_replicate_replicate)
  have s1: "js_shl 65536 3 = 524288" by code_simp
  have s2: "js_shl 536870912 3 = 0" by code_simp
  have b: "bit_count (replicate 8192 (replicate 65536 (0::byte))) = 4294967296"
    by (simp add: bit_count_replicate s1)
  have l1: "lengthBytes 4294967296 = [0, 0, 0, 0, 1, 0, 0, 0]" by code_simp
  have l2: "lengthBytes 0 = [0, 0, 0, 0, 0, 0, 0, 0]" by code_simp
  have m: "(536870912::nat) mod 64 = 0" by simp
  have p1: "md5_padding 0 4294967296 = 0x80 # replicate 55 0 @ [0, 0, 0, 0, 1, 0, 0, 0]"
    by (simp only: md5_padding_def l1) simp
  have p2: "md5_padding 0 0 = 0x80 # replicate 55 0 @ [0, 0, 0, 0, 0, 0, 0, 0]"
    by (simp only: md5_padding_def l2) simp
  have d1: "fst (md5Final (foldl md5Update md5Init (replicate 8192 (replicate 65536 0))))
       = md5_result (fst (md5_absorb (state md5Init)
           (replicate 536870912 0 @ 0x80 # replicate 55 0 @ [0, 0, 0, 0, 1, 0, 0, 0])))"
    by (simp only: md5_digest_chunks bit_count_def [symmetric] c b length_replicate m p1)
  have d2: "fst (md5Final (md5Update md5Init (replicate 536870912 0)))
       = md5_result (fst (md5_absorb (state md5Init)
           (replicate 536870912 0 @ 0x80 # replicate 55 0 @ [0, 0, 0, 0, 0, 0, 0, 0])))"
    by (simp only: md5_digest_one length_replicate of_nat_numeral m s2 p2)
  show ?thesis using c d1 d2 by (intro conjI)
qed

text \<open>
  Claim C9. For every sequence of \<open>md5Update\<close> calls feeding \<open>n\<close> bytes in total, the
  counter is exactly \<open>8 * n\<close>, in particular after a single call of any size, and
  \<open>md5Final\<close> writes this bit count little-endian into the last eight padding bytes.

  \<open>md5_count_exact\<close> above proves the counter exact while every call passes fewer than
  \<open>2 ^ 28\<close> bytes, and \<open>lengthBytes_little_endian\<close> that \<open>md5Final\<close> writes the counter
  little-endian. The theorem evaluates single calls beyond that: with \<open>2 ^ 28\<close> bytes
  the counter is \<open>- 2 ^ 31\<close>, not \<open>2 ^ 31\<close>; with \<open>2 ^ 29\<close> bytes it is 0, not \<open>2 ^ 32\<close>,
  and the eight length bytes \<open>md5Final\<close> writes for it are all zero.
\<close>

theorem md5_count_overflow:
  "count (md5Update md5Init (replicate 268435456 0)) = - 2147483648
   \<and> count (md5Update md5Init (replicate 536870912 0)) = 0
   \<and> lengthBytes (count (md5Update md5Init (replicate 536870912 0)))
       = [0, 0, 0, 0, 0, 0, 0, 0]"
proof -
  have s1: "js_shl 268435456 3 = - 2147483648" by code_simp
  have s2: "js_shl 536870912 3 = 0" by code_simp
  have l2: "lengthBytes 0 = [0, 0, 0, 0, 0, 0, 0, 0]" by code_simp
  have c0: "count md5Init = 0" by (simp add: md5Init_def)
  have c1: "count (md5Update md5Init (replicate 268435456 0)) = - 2147483648"
    by (simp add: md5Update_count s1 c0)
  have c2: "count (md5Update md5Init (replicate 536870912 0)) = 0"
    by (simp add: md5Update_count s2 c0)
  show ?thesis
    unfolding c1 c2 l2 by simp
qed

section \<open>Finalizing twice\<close>

text \<open>
  Claim C4, as stated: on an accumulator that has been finalized once, a second call of
  finalize fails with an AlreadyFinalized error instead of returning a digest.

  The code keeps no record of a finalize call. On the MD5 accumulator of the empty
  input the first \<open>finalizeHash\<close> returns the digest \<open>d41d8cd9...\<close> and the second one
  returns sixteen bytes again, \<open>cdd149ce...\<close>, not an error.
\<close>

theorem finalizeHash_twice_md5:
  "fst (finalizeHash broken_crypto (Js ''MD5'' md5Init))
     = Inr [212, 29, 140, 217, 143, 0, 178, 4, 233, 128, 9, 152, 236, 248, 66, 126]
   \<and> fst (finalizeHash broken_crypto (snd (finalizeHash broken_crypto (Js ''MD5'' md5Init))))
     = Inr [205, 209, 73, 206, 181, 210, 247, 104, 43, 36, 72, 15, 242, 109, 76, 160]"
  by code_simp

text \<open>
  Claim C4, amended: \<open>finalizeHash\<close> has no guard against a second call. On an MD5
  accumulator the second call pads and transforms the state the first call left and
  returns sixteen bytes; on a delegated accumulator it does again what the first call
  did, asking the platform for the digest of the same buffer.
\<close>

theorem finalizeHash_again:
  "(\<exists>d st'. finalizeHash P (snd (finalizeHash P (Js ''MD5'' st))) = (Inr d, Js ''MD5'' st')
             \<and> length d = 16)
   \<and> finalizeHash P (snd (finalizeHash P (Crypto alg buf))) = finalizeHash P (Crypto alg buf)"
proof (intro conjI exI)
  show "finalizeHash P (snd (finalizeHash P (Js ''MD5'' st)))
      = (Inr (fst (md5Final (snd (md5Final st)))), Js ''MD5'' (snd (md5Final (snd (md5Final st)))))"
    by (simp only: finalizeHash_MD5 snd_conv)
  show "length (fst (md5Final (snd (md5Final st)))) = 16"
    by (rule md5Final_length)
  show "finalizeHash P (snd (finalizeHash P (Crypto alg buf))) = finalizeHash P (Crypto alg buf)"
    by (simp split: sum.splits)
qed

section \<open>HMAC-MD5\<close>

text \<open>
  Claim C6. Computing \<open>hmac-md5\<close> with key "key" over "The quick brown fox jumps over
  the lazy dog" succeeds with the digest \<open>80070713463e7749b90c2dc24911e275\<close>.

  \<open>calculateHMAC\<close> hands the hash name \<open>MD5\<close> to \<open>crypto.subtle.importKey\<close>. The
  repository's own MD5 is not used, and the Web Cryptography API has no MD5 (as the
  comment in \<open>createHashInstance\<close> says, which sends \<open>md5\<close> to the JavaScript
  implementation for that reason): on every platform with the algorithm table of the
  API, whatever its digest and signing functions compute, for every file, key and
  setting, the computation is rejected before the file is read.
\<close>

theorem hmac_md5_rejected:
  "calculateHash (web_crypto digest sign) S file ''hmac-md5'' options
     = Some (Inl (PlatformError ''NotSupportedError''), [])"
  by (simp add: calculateHash_def isAlgorithmSupported_def calculateHMAC_def
      hmac_cryptoAlgoMap_def web_crypto_def sha_names_def Let_def)

section \<open>Matching an empty digest\<close>

text \<open>
  Claim C10. \<open>compareHashes\<close> returns false whenever one of its arguments is the empty
  string, so also for two empty strings, and a match query with an empty candidate
  reports no match: the match loop finds nothing, and \<open>compareHash\<close> answers with the
  warning to enter a hash.
\<close>

theorem compareHashes_empty:
  "compareHashes [] h = False \<and> compareHashes h [] = False
   \<and> find_matches [] results = []
   \<and> compareHash [] results = EnterHashWarning"
proof -
  have "filter (\<lambda>(alg, h). compareHashes [] h) xs = []" for xs :: "(string \<times> string) list"
    by (induction xs) (auto simp add: compareHashes_def)
  then have "find_matches [] results = []"
    by (simp add: find_matches_def)
  then show ?thesis
    by (simp add: compareHashes_def compareHash_def trim_def)
qed

section \<open>Traversals of the input\<close>

text \<open>
  Claim C3, as stated: for every input and every non-empty list of requested
  algorithms, \<open>calculateMultipleHashes\<close> traverses the input once; each chunk read is fed
  to every requested accumulator before the next chunk is read.

  For the three-byte file, chunk size 2 and the algorithms \<open>md5\<close> and \<open>sha256\<close> the log
  shows two traversals: both chunks are read and fed to the MD5 accumulator, then both
  are read again and fed to the SHA-256 accumulator.
\<close>

theorem two_traversals:
  "map_option (\<lambda>(report, evs). (filter (\<lambda>e. \<not> is_progress e) evs, traversals evs))
     (calculateMultipleHashes broken_crypto two_byte_chunks three_bytes [''md5'', ''sha256'']
        no_options)
   = Some ([Read 0 2, Update ''md5'' 2, Read 2 1, Update ''md5'' 1,
            Read 0 2, Update ''sha256'' 2, Read 2 1, Update ''sha256'' 1], 2)"
  by (simp add: two_algorithms_run is_progress_def)

text \<open>
  Claim C3, amended: for every positive chunk size \<open>calculateMultipleHashes\<close> returns
  its report, and it traverses the input once for every requested algorithm that gets as
  far as reading (an algorithm that is not supported, whose hash instance cannot be
  created or whose HMAC key the platform refuses reads nothing), one traversal after the
  other in the order requested: the computation of each algorithm alone shows one
  traversal if the algorithm reads and none otherwise, and it feeds no accumulator but
  its own; the reads and accumulator updates of the whole computation are those of
  \<open>calculateHash\<close> for each algorithm alone, one after the other, so a chunk is fed to
  one accumulator only.
\<close>

theorem one_traversal_per_algorithm:
  assumes "0 < (case opt_chunkSize options of None \<Rightarrow> chunkSize S | Some n \<Rightarrow> n)"
  shows "\<exists>report evs.
           calculateMultipleHashes P S fl algs options = Some (report, evs)
         \<and> traversals evs = length (filter (reads_input P options) algs)
         \<and> filter (\<lambda>e. \<not> is_progress e) evs
             = concat (map (\<lambda>alg. filter (\<lambda>e. \<not> is_progress e)
                                  (events_of (calculateHash P S fl alg options))) algs)
         \<and> list_all (\<lambda>alg. traversals (events_of (calculateHash P S fl alg options))
                              = (if reads_input P options alg then 1 else 0)
                            \<and> list_all (feeds_only alg)
                                (events_of (calculateHash P S fl alg options))) algs"
proof -
  obtain report evs where m: "calculateMultipleHashes P S fl algs options = Some (report, evs)"
    using calculateMultipleHashes_settles [OF assms] by blast
  then obtain res where l: "hashes_loop P S fl algs options algs [] = Some (res, evs)"
    by (auto simp add: calculateMultipleHashes_def)
  note h = hashes_loop_Some [OF l]
  have one: "traversals (events_of (calculateHash P S fl alg options))
        = (if reads_input P options alg then 1 else 0)
      \<and> list_all (feeds_only alg) (events_of (calculateHash P S fl alg options))" for alg
  proof -
    obtain r es where c: "calculateHash P S fl alg options = Some (r, es)"
      using calculateHash_settles [OF assms] by blast
    show ?thesis
      using calculateHash_traversals [OF c] calculateHash_feeds [OF c]
      by (simp add: c events_of_def)
  qed
  then have "sum_list (map (\<lambda>alg. traversals (events_of (calculateHash P S fl alg options))) algs)
      = length (filter (reads_input P options) algs)"
    by (simp only: length_filter_sum)
  moreover have "traversals evs
      = sum_list (map (\<lambda>alg. traversals (events_of (calculateHash P S fl alg options))) algs)"
    using h by blast
  moreover have "filter (\<lambda>e. \<not> is_progress e) evs
      = concat (map (\<lambda>alg. filter (\<lambda>e. \<not> is_progress e)
                           (events_of (calculateHash P S fl alg options))) algs)"
    using h by blast
  moreover have "list_all (\<lambda>alg. traversals (events_of (calculateHash P S fl alg options))
                              = (if reads_input P options alg then 1 else 0)
                            \<and> list_all (feeds_only alg)
                                (events_of (calculateHash P S fl alg options))) algs"
    using one by (simp add: list_all_iff)
  ultimately show ?thesis using m by simp
qed

theorem one_traversal_per_algorithm_witness:
  "0 < (case opt_chunkSize key_options of None \<Rightarrow> chunkSize two_byte_chunks | Some n \<Rightarrow> n)
   \<and> calculateMultipleHashes plain_crypto two_byte_chunks three_bytes
        [''md5'', ''hmac-sha256'', ''hmac-md5'', ''sha1''] key_options
      = Some (\<lparr>filename = ''three.bin'', size_bytes = 3,
               hashValues = [(''md5'', ''5289df737df57326fcdd22597afb1fac''),
                             (''hmac-sha256'', ''6b6579010203''),
                             (''hmac-md5'', failure_prefix @ ''NotSupportedError''),
                             (''sha1'', ''010203'')]\<rparr>,
              [Read 0 2, Update ''md5'' 2, Progress 2 3, Read 2 1, Update ''md5'' 1,
               Progress 3 3, Read 0 2, Read 2 1, Read 0 2, Update ''sha1'' 2, Read 2 1,
               Update ''sha1'' 1])
   \<and> traversals [Read 0 2, Update ''md5'' 2, Progress 2 3, Read 2 1, Update ''md5'' 1,
               Progress 3 3, Read 0 2, Read 2 1, Read 0 2, Update ''sha1'' 2, Read 2 1,
               Update ''sha1'' 1]
       = length (filter (reads_input plain_crypto key_options)
                   [''md5'', ''hmac-sha256'', ''hmac-md5'', ''sha1''])
   \<and> length (filter (reads_input plain_crypto key_options)
                [''md5'', ''hmac-sha256'', ''hmac-md5'', ''sha1'']) = 3"
proof -
  have c: "0 < (case opt_chunkSize key_options of None \<Rightarrow> chunkSize two_byte_chunks
                | Some n \<Rightarrow> n)"
    by (simp add: key_options_def two_byte_chunks_def)
  have t: "traversals [Read 0 2, Update ''md5'' 2, Progress 2 3, Read 2 1, Update ''md5'' 1,
               Progress 3 3, Read 0 2, Read 2 1, Read 0 2, Update ''sha1'' 2, Read 2 1,
               Update ''sha1'' 1] = 3"
    by simp
  show ?thesis
    using one_traversal_per_algorithm [OF c, of plain_crypto three_bytes
        "[''md5'', ''hmac-sha256'', ''hmac-md5'', ''sha1'']"] c
    unfolding four_algorithms_run t
    by auto
qed

section \<open>Failure of one algorithm\<close>

text \<open>
  Claim C5. For every input and every list of requested algorithms, if the computation
  of one algorithm fails, its slot of the result map holds a failure marker and every
  other requested algorithm still produces its correct digest for the same input.

  \<open>algorithm_isolation_below_256MiB\<close> above proves this when the reads succeed and the
  chunk size is positive and below \<open>2 ^ 28\<close> bytes: the report is returned, and the slot
  of every requested algorithm holds \<open>slot_of_input\<close>, which depends on that algorithm
  and on the bytes of the file only. With a chunk size of \<open>2 ^ 29\<close> bytes it stops, by
  the 32-bit shift in \<open>md5Update\<close>. The theorem evaluates the request for \<open>sha256\<close> and
  \<open>md5\<close> on the file of \<open>2 ^ 29\<close> zero bytes, read in one piece, on a platform that
  rejects the digest call: the slot of \<open>sha256\<close> holds the failure marker, and the slot
  of \<open>md5\<close> holds the digest of the message padded with the length field
  \<open>00 00 00 00 00 00 00 00\<close>, where the MD5 of the input is the digest of the message
  padded with the length field \<open>00 00 00 00 01 00 00 00\<close>.
\<close>

theorem md5_sibling_512MiB:
  "calculateMultipleHashes broken_crypto chunks_512MiB zeros_512MiB [''sha256'', ''md5'']
     no_options
   = Some (\<lparr>filename = ''zeros.bin'', size_bytes = 536870912,
            hashValues =
              [(''sha256'', failure_prefix @ ''OperationError''),
               (''md5'', bufferToHex (md5_result (fst (md5_absorb (state md5Init)
                    (replicate 536870912 0 @ 0x80 # replicate 55 0 @ [0, 0, 0, 0, 0, 0, 0, 0]))))
                  ''lowercase'')]\<rparr>,
           [Read 0 536870912, Update ''sha256'' 536870912,
            Read 0 536870912, Update ''md5'' 536870912])
   \<and> md5_of_message (bytes zeros_512MiB)
       = md5_result (fst (md5_absorb (state md5Init)
           (replicate 536870912 0 @ 0x80 # replicate 55 0 @ [0, 0, 0, 0, 1, 0, 0, 0])))"
proof -
  have s: "file_size zeros_512MiB = 536870912" "name zeros_512MiB = ''zeros.bin''"
    "bytes zeros_512MiB = replicate 536870912 0"
    by (simp_all add: file_size_def zeros_512MiB_def)
  show ?thesis
    by (simp add: calculateMultipleHashes_def zeros_512MiB_sha256 zeros_512MiB_md5 Let_def
        obj_set_def is_progress_def s md5_one_update_zero_count md5_of_zeros_512MiB
        del: replicate_Suc)
qed

section \<open>Progress\<close>

text \<open>
  Claim C8, as stated: over every traversal of one input the processed-bytes values
  passed to the progress callback never decrease, and the value equals the size of the
  input exactly once, at the last progress event of the traversal.

  On the three-byte file whose read at offset 2 fails, with chunk size 2, the traversal
  delivers the value 2 and is aborted: the size 3 is never delivered. On the three-byte
  file read in one piece with an algorithm whose digest the platform rejects, no
  progress event is delivered at all.
\<close>

theorem progress_stops_short:
  "calculateHash broken_crypto two_byte_chunks unreadable_tail ''md5'' no_options
     = Some (Inl FileReadFailed, [Read 0 2, Update ''md5'' 2, Progress 2 3, Read 2 1])
   \<and> progress_values [Read 0 2, Update ''md5'' 2, Progress 2 3, Read 2 1] = [2]
   \<and> file_size unreadable_tail = 3
   \<and> calculateHash broken_crypto three_byte_chunks three_bytes ''sha256'' no_options
     = Some (Inl (PlatformError ''OperationError''), [Read 0 3, Update ''sha256'' 3])
   \<and> progress_values [Read 0 3, Update ''sha256'' 3] = []
   \<and> file_size three_bytes = 3"
  by code_simp

text \<open>
  Claim C8, amended: for every positive chunk size the computation of \<open>calculateHash\<close>
  settles; the processed-bytes values it passes to the progress callback strictly
  increase and never exceed the size of the input, whether the traversal runs to its end
  or is aborted; and when the computation resolves, the value equals the size of the
  input exactly once, at the last progress event.
\<close>

theorem progress_monotone:
  assumes "0 < (case opt_chunkSize options of None \<Rightarrow> chunkSize S | Some n \<Rightarrow> n)"
  shows "\<exists>r evs.
           calculateHash P S fl alg options = Some (r, evs)
         \<and> sorted (progress_values evs) \<and> distinct (progress_values evs)
         \<and> list_all (\<lambda>p. p \<le> file_size fl) (progress_values evs)
         \<and> (\<not> isl r \<longrightarrow>
               progress_values evs \<noteq> []
             \<and> last (progress_values evs) = file_size fl
             \<and> length (filter (\<lambda>p. p = file_size fl) (progress_values evs)) = 1)"
proof -
  obtain r evs where c: "calculateHash P S fl alg options = Some (r, evs)"
    using calculateHash_settles [OF assms] by blast
  note rise = calculateHash_rising [OF c]
  have "progress_values evs \<noteq> [] \<and> last (progress_values evs) = file_size fl
      \<and> length (filter (\<lambda>p. p = file_size fl) (progress_values evs)) = 1" if nl: "\<not> isl r"
  proof -
    obtain res where "r = Inr res" using nl by (cases r) simp_all
    then show ?thesis using progress_when_resolved c by blast
  qed
  then show ?thesis using c rise by blast
qed

theorem progress_monotone_witness:
  "0 < (case opt_chunkSize no_options of None \<Rightarrow> chunkSize two_byte_chunks | Some n \<Rightarrow> n)
   \<and> calculateHash broken_crypto two_byte_chunks three_bytes ''md5'' no_options
     = Some (Inr \<lparr>algorithm = ''md5'', hash = ''5289df737df57326fcdd22597afb1fac''\<rparr>,
             [Read 0 2, Update ''md5'' 2, Progress 2 3, Read 2 1, Update ''md5'' 1,
              Progress 3 3])
   \<and> calculateHash plain_crypto two_byte_chunks three_bytes ''hmac-sha256'' key_options
     = Some (Inr \<lparr>algorithm = ''hmac-sha256'', hash = ''6b6579010203''\<rparr>,
             [Read 0 2, Progress 2 3, Read 2 1, Progress 3 3])
   \<and> progress_values [Read 0 2, Update ''md5'' 2, Progress 2 3, Read 2 1, Update ''md5'' 1,
              Progress 3 3] = [2, 3]
   \<and> progress_values [Read 0 2, Progress 2 3, Read 2 1, Progress 3 3] = [2, 3]
   \<and> sorted [2, 3 :: nat] \<and> distinct [2, 3 :: nat]
   \<and> list_all (\<lambda>p. p \<le> file_size three_bytes) [2, 3]
   \<and> last [2, 3] = file_size three_bytes
   \<and> length (filter (\<lambda>p. p = file_size three_bytes) [2, 3]) = 1"
proof -
  have c: "0 < (case opt_chunkSize no_options of None \<Rightarrow> chunkSize two_byte_chunks
                | Some n \<Rightarrow> n)"
    by (simp add: no_options_def two_byte_chunks_def)
  have k: "0 < (case opt_chunkSize key_options of None \<Rightarrow> chunkSize two_byte_chunks
                | Some n \<Rightarrow> n)"
    by (simp add: key_options_def two_byte_chunks_def)
  show ?thesis
    using progress_monotone [OF c, of broken_crypto three_bytes "''md5''"]
      progress_monotone [OF k, of plain_crypto three_bytes "''hmac-sha256''"] c
    unfolding md5_alone_run hmac_sha256_alone_run
    by auto
qed

section \<open>Grouping reports\<close>

text \<open>
  Claim C7, as stated: for every batch of at least two reports and every algorithm,
  the reports are grouped by digest equality compared case-insensitively, so two
  reports whose digests differ only in letter case are in the same group.

  \<open>compareMultipleFiles\<close> uses the digest string itself as the property key. The two
  reports of the counterexample carry the MD5 digest of the empty input in lower and in
  upper case: the strings are equal after \<open>toLowerCase\<close> and \<open>compareHashes\<close> accepts
  them, but the grouping puts them in two groups.
\<close>

theorem case_splits_groups:
  "compareMultipleFiles [report_a, report_upper]
     = Some (Inr [(''md5'', Groups [(''d41d8cd98f00b204e9800998ecf8427e'', [''a.bin'']),
                                    (''D41D8CD98F00B204E9800998ECF8427E'', [''upper.bin''])])])
   \<and> toLowerCase ''D41D8CD98F00B204E9800998ECF8427E'' = ''d41d8cd98f00b204e9800998ecf8427e''
   \<and> compareHashes ''d41d8cd98f00b204e9800998ecf8427e'' ''D41D8CD98F00B204E9800998ECF8427E''"
  by code_simp

text \<open>
  Claim C7, amended: for every batch of at least two reports and every algorithm, the
  reports are grouped by exact, case-sensitive equality of their digest strings: the
  groups are those of \<open>exact_groups\<close>, one per distinct digest string in first-seen
  order, each with its files in report order, and the batch is declared all-identical
  exactly when there is one group. (The digest strings are taken to be plain keys, as
  every hex digest and every failure marker is.)
\<close>

theorem exact_grouping:
  assumes "2 \<le> length results"
    and "list_all (\<lambda>alg. list_all (\<lambda>r. plain_key (digest_key alg r)) results)
           (all_algorithms results)"
  shows "compareMultipleFiles results
       = Some (Inr (map (\<lambda>alg. (alg, if length (exact_groups alg results) = 1 then AllSame
                                      else Groups (exact_groups alg results)))
                      (all_algorithms results)))"
proof -
  have "list_all (\<lambda>alg. compare_algorithm results alg
          = Inr (if length (exact_groups alg results) = 1 then AllSame
                 else Groups (exact_groups alg results))) (all_algorithms results)"
    using assms(2) compare_algorithm_exact by (simp add: list_all_iff)
  from compare_all_map [OF this] show ?thesis
    using assms(1) by (simp add: compareMultipleFiles_def)
qed

theorem exact_grouping_witness:
  "2 \<le> length [report_a, report_b, report_c]
   \<and> list_all (\<lambda>alg. list_all (\<lambda>r. plain_key (digest_key alg r))
                        [report_a, report_b, report_c])
       (all_algorithms [report_a, report_b, report_c])
   \<and> compareMultipleFiles [report_a, report_b, report_c]
     = Some (Inr [(''md5'', Groups [(''d41d8cd98f00b204e9800998ecf8427e'', [''a.bin'', ''c.bin'']),
                                    (''5289df737df57326fcdd22597afb1fac'', [''b.bin''])])])"
  using exact_grouping [OF three_reports_plain [THEN conjunct1]
      three_reports_plain [THEN conjunct2]] three_reports_plain
  by (simp only: three_reports_groups)

end
